theory Spec2Isabelle
  imports Main "HOL-Library.Char_ord" "HOL-Library.List_Lexorder"
begin

section \<open>Release identifiers and candidate generation\<close>

text \<open>
  Python's unbounded integers are modelled as \<open>int\<close>. A release identifier is the tuple
  \<open>(year, quarter, version, revision)\<close> that the source passes around.
\<close>

type_synonym release = "int \<times> int \<times> int \<times> int"

definition next_quarter :: "int \<Rightarrow> int \<Rightarrow> int \<times> int" where
  "next_quarter y q = (if q < 4 then (y, q + 1) else (y + 1, 1))"

text \<open>
  The candidate list built at the start of \<open>download_or_skip_both_with_version\<close>:
  \<open>range(r + 1, r + 6)\<close> is the interval \<open>[r + 1..r + 5]\<close>.
\<close>

definition candidates :: "int \<Rightarrow> int \<Rightarrow> int \<Rightarrow> int \<Rightarrow> release list" where
  "candidates y q v r =
     (let c1 = map (\<lambda>trial_r. (y, q, v, trial_r)) [r + 1..r + 5];
          c2 = c1 @ [(y, q, v + 1, 0)];
          (ny, nq) = next_quarter y q;
          c3 = c2 @ [(ny, nq, v + 1, 0)]
      in c3 @ [(ny, nq, v, 0)])"

section \<open>Strings, digits and number formatting\<close>

text \<open>
  A Python \<open>str\<close> is modelled as a list of 8-bit characters, read as Latin-1 code points.
  In that range the regular-expression class \<open>\d\<close> is exactly the ten ASCII digits, the
  class \<open>\s\<close> and \<open>str.strip\<close> agree on the characters listed in \<open>is_space\<close>, and under
  \<open>re.IGNORECASE\<close> a letter matches exactly its two ASCII cases.
\<close>

definition is_digit :: "char \<Rightarrow> bool" where
  "is_digit c = (c \<in> set ''0123456789'')"

definition is_space :: "char \<Rightarrow> bool" where
  "is_space c = (c \<in> {CHR 0x09, CHR 0x0A, CHR 0x0B, CHR 0x0C, CHR 0x0D, CHR 0x1C, CHR 0x1D,
                       CHR 0x1E, CHR 0x1F, CHR 0x20, CHR 0x85, CHR 0xA0})"

text \<open>
  The value of a digit character and the character of a digit, through the code points:
  the digits are the code points 48 to 57.
\<close>

definition digit_val :: "char \<Rightarrow> int" where
  "digit_val c = int (of_char c) - 48"

definition digit_chr :: "nat \<Rightarrow> char" where
  "digit_chr n = char_of (n + 48)"

text \<open>\<open>int(s)\<close> on a string of digits (the only strings the source converts).\<close>

definition int_of_digits :: "string \<Rightarrow> int" where
  "int_of_digits ds = foldl (\<lambda>a c. 10 * a + digit_val c) 0 ds"

text \<open>\<open>str(n)\<close> for a natural number, and for any integer.\<close>

fun nat_digits :: "nat \<Rightarrow> string" where
  "nat_digits n = (if n < 10 then [digit_chr n] else nat_digits (n div 10) @ [digit_chr (n mod 10)])"

declare nat_digits.simps [simp del]

definition str_int :: "int \<Rightarrow> string" where
  "str_int n = (if n < 0 then CHR ''-'' # nat_digits (nat (- n)) else nat_digits (nat n))"

text \<open>
  The format \<open>{n:03d}\<close>: the sign, if any, comes first and zeros fill the field up to three
  characters in all; a longer number is written out in full.
\<close>

definition zero_pad :: "nat \<Rightarrow> string \<Rightarrow> string" where
  "zero_pad w ds = replicate (w - length ds) CHR ''0'' @ ds"

definition fmt_03d :: "int \<Rightarrow> string" where
  "fmt_03d n = (if n < 0 then CHR ''-'' # zero_pad 2 (nat_digits (nat (- n)))
                else zero_pad 3 (nat_digits (nat n)))"

text \<open>\<open>str.startswith\<close>, \<open>str.endswith\<close>, \<open>str.strip\<close> and \<open>str.lower\<close>.\<close>

definition startswith :: "string \<Rightarrow> string \<Rightarrow> bool" where
  "startswith s p = (take (length p) s = p)"

definition endswith :: "string \<Rightarrow> string \<Rightarrow> bool" where
  "endswith s p = (length p \<le> length s \<and> drop (length s - length p) s = p)"

definition strip :: "string \<Rightarrow> string" where
  "strip s = rev (dropWhile is_space (rev (dropWhile is_space s)))"

definition lower_char :: "char \<Rightarrow> char" where
  "lower_char c =
     (let n = (of_char c :: nat)
      in if (65 \<le> n \<and> n \<le> 90) \<or> (192 \<le> n \<and> n \<le> 222 \<and> n \<noteq> 215)
         then char_of (n + 32) else c)"

definition lower :: "string \<Rightarrow> string" where
  "lower s = map lower_char s"

text \<open>A literal of a pattern compiled with \<open>re.IGNORECASE\<close> matched at the head of \<open>s\<close>.\<close>

definition startswith_ci :: "string \<Rightarrow> string \<Rightarrow> bool" where
  "startswith_ci s p = (length p \<le> length s \<and> lower (take (length p) s) = lower p)"

text \<open>
  The assertion \<open>$\<close> (without \<open>re.MULTILINE\<close>) holds at the end of the string and just
  before a newline that is the last character; \<open>at_end rest\<close> tests it on what is left.
\<close>

definition at_end :: "string \<Rightarrow> bool" where
  "at_end rest = (rest = [] \<or> rest = [CHR 0x0A])"

section \<open>The URL patterns\<close>

text \<open>
  Each compiled pattern of the source is modelled by a function that matches it at the
  head of a string, and a search that tries every position from the left, as \<open>re.search\<close>
  does, and returns the text before the match, the match, and the text after it.

  \<open>_VERSION_RE\<close> is \<^verbatim>\<open>(?:^|[-_])v(?P<v>\d{3})r(?P<r>\d+)(?:[-_]|$)\<close>, ignoring case. The
  greedy \<open>\d+\<close> takes every digit that follows; giving one back leaves a digit next, where
  neither \<open>[-_]\<close> nor \<open>$\<close> can match, so no backtracking is needed.
\<close>

record vr_match =
  vr_lead :: string
  vr_vch :: char
  vr_v :: string
  vr_rch :: char
  vr_r :: string
  vr_term :: string

definition vr_group0 :: "vr_match \<Rightarrow> string" where
  "vr_group0 m = vr_lead m @ [vr_vch m] @ vr_v m @ [vr_rch m] @ vr_r m @ vr_term m"

fun vr_body :: "string \<Rightarrow> string \<Rightarrow> (vr_match \<times> string) option" where
  "vr_body lead (c1 # d1 # d2 # d3 # c2 # cs) =
     (if (c1 = CHR ''v'' \<or> c1 = CHR ''V'') \<and> is_digit d1 \<and> is_digit d2 \<and> is_digit d3
         \<and> (c2 = CHR ''r'' \<or> c2 = CHR ''R'')
      then (let ds = takeWhile is_digit cs; rest = dropWhile is_digit cs;
                m = \<lparr>vr_lead = lead, vr_vch = c1, vr_v = [d1, d2, d3], vr_rch = c2, vr_r = ds,
                     vr_term = []\<rparr>
            in if ds = [] then None
               else if rest \<noteq> [] \<and> (hd rest = CHR ''-'' \<or> hd rest = CHR ''_'')
               then Some (m\<lparr>vr_term := [hd rest]\<rparr>, tl rest)
               else if at_end rest then Some (m, rest)
               else None)
      else None)"
| "vr_body lead _ = None"

text \<open>The alternation \<open>(?:^|[-_])\<close> tries \<open>^\<close> first, then a delimiter character.\<close>

definition vr_match_at :: "bool \<Rightarrow> string \<Rightarrow> (vr_match \<times> string) option" where
  "vr_match_at at_start s =
     (case (if at_start then vr_body [] s else None) of
        Some res \<Rightarrow> Some res
      | None \<Rightarrow>
          (case s of
             [] \<Rightarrow> None
           | c # s' \<Rightarrow> if c = CHR ''-'' \<or> c = CHR ''_'' then vr_body [c] s' else None))"

fun vr_search_from :: "bool \<Rightarrow> string \<Rightarrow> (string \<times> vr_match \<times> string) option" where
  "vr_search_from at_start [] = None"
| "vr_search_from at_start (c # cs) =
     (case vr_match_at at_start (c # cs) of
        Some (m, rest) \<Rightarrow> Some ([], m, rest)
      | None \<Rightarrow> map_option (\<lambda>(pre, m, rest). (c # pre, m, rest)) (vr_search_from False cs))"

definition VERSION_RE_search :: "string \<Rightarrow> (string \<times> vr_match \<times> string) option" where
  "VERSION_RE_search url = vr_search_from True url"

text \<open>\<open>_QTR_RE\<close> is \<^verbatim>\<open>(?P<y>20\d{2})q(?P<q>[1-4])\<close>, ignoring case.\<close>

record qtr_match =
  qtr_y :: string
  qtr_qch :: char
  qtr_q :: char

definition qtr_group0 :: "qtr_match \<Rightarrow> string" where
  "qtr_group0 m = qtr_y m @ [qtr_qch m, qtr_q m]"

fun qtr_match_at :: "string \<Rightarrow> (qtr_match \<times> string) option" where
  "qtr_match_at (a # b # d1 # d2 # qc # qd # rest) =
     (if a = CHR ''2'' \<and> b = CHR ''0'' \<and> is_digit d1 \<and> is_digit d2
         \<and> (qc = CHR ''q'' \<or> qc = CHR ''Q'') \<and> qd \<in> set ''1234''
      then Some (\<lparr>qtr_y = [a, b, d1, d2], qtr_qch = qc, qtr_q = qd\<rparr>, rest)
      else None)"
| "qtr_match_at _ = None"

fun QTR_RE_search :: "string \<Rightarrow> (string \<times> qtr_match \<times> string) option" where
  "QTR_RE_search [] = None"
| "QTR_RE_search (c # cs) =
     (case qtr_match_at (c # cs) of
        Some (m, rest) \<Rightarrow> Some ([], m, rest)
      | None \<Rightarrow> map_option (\<lambda>(pre, m, rest). (c # pre, m, rest)) (QTR_RE_search cs))"

text \<open>
  \<open>_F_RE\<close> is \<^verbatim>\<open>-f(?P<f>[12])(?=\.zip|[-_])\<close>, ignoring case; the lookahead consumes
  nothing, so the text after the match starts with what it saw.
\<close>

fun f_match_at :: "string \<Rightarrow> (string \<times> string) option" where
  "f_match_at (a # b # c # rest) =
     (if a = CHR ''-'' \<and> (b = CHR ''f'' \<or> b = CHR ''F'') \<and> (c = CHR ''1'' \<or> c = CHR ''2'')
         \<and> (startswith_ci rest ''.zip''
              \<or> (rest \<noteq> [] \<and> (hd rest = CHR ''-'' \<or> hd rest = CHR ''_'')))
      then Some ([a, b, c], rest)
      else None)"
| "f_match_at _ = None"

fun F_RE_search :: "string \<Rightarrow> (string \<times> string \<times> string) option" where
  "F_RE_search [] = None"
| "F_RE_search (c # cs) =
     (case f_match_at (c # cs) of
        Some (g, rest) \<Rightarrow> Some ([], g, rest)
      | None \<Rightarrow> map_option (\<lambda>(pre, g, rest). (c # pre, g, rest)) (F_RE_search cs))"

text \<open>
  \<^verbatim>\<open>re.sub(r"\.zip$", repl, url, flags=re.IGNORECASE)\<close>. After a match only the end of the
  string or its last newline is left, where the pattern cannot match again.
\<close>

fun sub_zip_end :: "string \<Rightarrow> string \<Rightarrow> string" where
  "sub_zip_end repl [] = []"
| "sub_zip_end repl (c # cs) =
     (if startswith_ci (c # cs) ''.zip'' \<and> at_end (drop 4 (c # cs))
      then repl @ drop 4 (c # cs)
      else c # sub_zip_end repl cs)"

section \<open>Parsing and rewriting the URL fields\<close>

datatype error =
    ValueError_vr
  | ValueError_quarter
  | AttributeError
  | RuntimeError_not_zip
  | BadZipFile
  | KeyError
  | FileNotFoundError
  | ParseError
  | ReindexError
  | ConcatError
  | OSError_read
  | OSError_write

definition parse_vr :: "string \<Rightarrow> error + (int \<times> int)" where
  "parse_vr url =
     (case VERSION_RE_search url of
        None \<Rightarrow> Inl ValueError_vr
      | Some (pre, m, post) \<Rightarrow> Inr (int_of_digits (vr_v m), int_of_digits (vr_r m)))"

definition parse_quarter :: "string \<Rightarrow> error + (int \<times> int)" where
  "parse_quarter url =
     (case QTR_RE_search url of
        None \<Rightarrow> Inl ValueError_quarter
      | Some (pre, m, post) \<Rightarrow> Inr (int_of_digits (qtr_y m), int_of_digits [qtr_q m]))"

text \<open>The replacement function \<open>repl\<close> of \<open>_set_vr\<close>, applied to the whole match.\<close>

definition vr_repl :: "int \<Rightarrow> int \<Rightarrow> string \<Rightarrow> string" where
  "vr_repl v r g0 =
     (let prefix = (if startswith g0 ''-'' then ''-'' else []);
          suffix = (if endswith g0 ''-'' then ''-'' else [])
      in prefix @ ''v'' @ fmt_03d v @ ''r'' @ str_int r @ suffix)"

definition set_vr :: "string \<Rightarrow> int \<Rightarrow> int \<Rightarrow> string" where
  "set_vr url v r =
     (case VERSION_RE_search url of
        None \<Rightarrow> url
      | Some (pre, m, post) \<Rightarrow> pre @ vr_repl v r (vr_group0 m) @ post)"

definition set_quarter :: "string \<Rightarrow> int \<Rightarrow> int \<Rightarrow> string" where
  "set_quarter url y q =
     (case QTR_RE_search url of
        None \<Rightarrow> url
      | Some (pre, m, post) \<Rightarrow> pre @ (str_int y @ ''q'' @ str_int q) @ post)"

definition with_f :: "string \<Rightarrow> int \<Rightarrow> string" where
  "with_f url fnum =
     (case F_RE_search url of
        Some (pre, g, post) \<Rightarrow> pre @ (''-f'' @ str_int fnum) @ post
      | None \<Rightarrow> sub_zip_end (''-f'' @ str_int fnum @ ''.zip'') url)"

definition pair_f1_f2 :: "string \<Rightarrow> string \<times> string" where
  "pair_f1_f2 base_f1_url = (with_f base_f1_url 1, with_f base_f1_url 2)"

section \<open>Archives and tables\<close>

text \<open>
  A cell of a pandas table is a string or the missing value \<open>NaN\<close>. A table has a list of
  column names and a list of rows, each row a list of cells in column order.
\<close>

datatype cell = NaN | Str string

record df =
  columns :: "string list"
  rows :: "cell list list"

text \<open>
  The bytes of an archive member are represented by what each of the three pandas readers
  the source calls on them returns (\<open>None\<close> when the reader raises): \<open>read_excel\<close>,
  the whitespace-delimited \<open>read_csv\<close> and \<open>read_fwf\<close>, all three with \<open>skiprows=6\<close>.
  The bytes of a response are empty, or something \<open>zipfile\<close> does not accept, or an
  archive with its members in listing order.
\<close>

datatype blob = Blob (as_excel: "df option") (as_csv: "df option") (as_fwf: "df option")

datatype bytes = Empty_bytes | Not_zip | Zip_bytes "(string \<times> blob) list"

definition bytes_is_zip :: "bytes \<Rightarrow> bool" where
  "bytes_is_zip b = (case b of Zip_bytes ms \<Rightarrow> True | _ \<Rightarrow> False)"

text \<open>\<open>ZipFile.read(name)\<close> reads the last member listed under that name.\<close>

definition zf_read :: "(string \<times> blob) list \<Rightarrow> string \<Rightarrow> error + blob" where
  "zf_read ms name = (case map_of (rev ms) name of None \<Rightarrow> Inl KeyError | Some b \<Rightarrow> Inr b)"

fun extract_member_loop :: "(string \<times> blob) list \<Rightarrow> string list \<Rightarrow> error + (string \<times> blob)" where
  "extract_member_loop ms [] = Inl FileNotFoundError"
| "extract_member_loop ms (name # names) =
     (if endswith (lower name) ''.xlsx'' \<or> endswith (lower name) ''.txt''
      then (case zf_read ms name of Inl e \<Rightarrow> Inl e | Inr b \<Rightarrow> Inr (name, b))
      else extract_member_loop ms names)"

definition extract_member :: "bytes \<Rightarrow> error + (string \<times> blob)" where
  "extract_member zbytes =
     (case zbytes of
        Zip_bytes ms \<Rightarrow> extract_member_loop ms (map fst ms)
      | _ \<Rightarrow> Inl BadZipFile)"

definition expected :: "string list" where
  "expected = [''Column 1'', ''Column 2'', ''*=in existence'', ''Effective'', ''Deletion'',
               ''Modifier'', ''PTP Edit Rationale'']"

definition astype_str :: "cell \<Rightarrow> cell" where
  "astype_str c = (case c of NaN \<Rightarrow> Str ''nan'' | Str s \<Rightarrow> Str s)"

text \<open>Python's truth value of an \<open>Optional[bytes]\<close>: \<open>None\<close> and \<open>b""\<close> are false.\<close>

definition truthy :: "bytes option \<Rightarrow> bool" where
  "truthy zbytes = (case zbytes of None \<Rightarrow> False | Some b \<Rightarrow> b \<noteq> Empty_bytes)"

definition read_zip_to_df :: "bytes option \<Rightarrow> error + df" where
  "read_zip_to_df zbytes =
     (if \<not> truthy zbytes \<or> \<not> bytes_is_zip (the zbytes) then Inl RuntimeError_not_zip
      else
        (case extract_member (the zbytes) of
           Inl e \<Rightarrow> Inl e
         | Inr (name, b) \<Rightarrow>
             (case (if endswith (lower name) ''.xlsx'' then as_excel b
                    else (case as_csv b of Some d \<Rightarrow> Some d | None \<Rightarrow> as_fwf b)) of
                None \<Rightarrow> Inl ParseError
              | Some d \<Rightarrow>
                  (let cols = map strip (columns d);
                       d1 = \<lparr>columns = cols, rows = map (map astype_str) (rows d)\<rparr>
                   in Inr (if length cols = length expected then d1\<lparr>columns := expected\<rparr>
                           else d1)))))"

text \<open>
  \<open>df.reindex(columns=all_cols)\<close>: pandas refuses to reindex a table whose own column
  names are not distinct; a column the table lacks is filled with \<open>NaN\<close>.
\<close>

definition reindex :: "string list \<Rightarrow> df \<Rightarrow> error + df" where
  "reindex all_cols d =
     (if \<not> distinct (columns d) then Inl ReindexError
      else Inr \<lparr>columns = all_cols,
                rows = map (\<lambda>row. map (\<lambda>c. case map_of (zip (columns d) row) c of
                                               None \<Rightarrow> NaN | Some x \<Rightarrow> x) all_cols)
                           (rows d)\<rparr>)"

fun reindex_all :: "string list \<Rightarrow> df list \<Rightarrow> error + df list" where
  "reindex_all all_cols [] = Inr []"
| "reindex_all all_cols (d # ds) =
     (case reindex all_cols d of
        Inl e \<Rightarrow> Inl e
      | Inr d' \<Rightarrow> (case reindex_all all_cols ds of Inl e \<Rightarrow> Inl e | Inr ds' \<Rightarrow> Inr (d' # ds')))"

text \<open>
  \<open>_concat_dfs\<close>: \<open>pd.concat\<close> of tables that all carry the column list \<open>all_cols\<close>, with
  \<open>ignore_index=True\<close>, stacks their rows in order; an empty list of tables is an error.
\<close>

definition concat_dfs :: "df list \<Rightarrow> error + df" where
  "concat_dfs dfs =
     (let all_cols = sorted_list_of_set (\<Union> (set (map (\<lambda>d. set (columns d)) dfs)))
      in case reindex_all all_cols dfs of
           Inl e \<Rightarrow> Inl e
         | Inr ds \<Rightarrow> if ds = [] then Inl ConcatError
                     else Inr \<lparr>columns = all_cols, rows = concat (map rows ds)\<rparr>)"

text \<open>
  \<open>df.to_csv(path, index=False)\<close> writes the header and the rows, a missing value as an
  empty field. A written table file is represented by its fields.
\<close>

definition csv_field :: "cell \<Rightarrow> string" where
  "csv_field c = (case c of NaN \<Rightarrow> [] | Str s \<Rightarrow> s)"

type_synonym csv_file = "string list \<times> string list list"

definition csv_fields :: "df \<Rightarrow> csv_file" where
  "csv_fields d = (columns d, map (map csv_field) (rows d))"

section \<open>The output path\<close>

text \<open>\<^verbatim>\<open>re.search(r"file=([^&]+)", url).group(1)\<close>; without a match the source raises.\<close>

fun file_param :: "string \<Rightarrow> string option" where
  "file_param [] = None"
| "file_param (c # cs) =
     (if startswith (c # cs) ''file='' \<and> takeWhile (\<lambda>x. x \<noteq> CHR ''&'') (drop 5 (c # cs)) \<noteq> []
      then Some (takeWhile (\<lambda>x. x \<noteq> CHR ''&'') (drop 5 (c # cs)))
      else file_param cs)"

definition basename :: "string \<Rightarrow> string" where
  "basename p = rev (takeWhile (\<lambda>x. x \<noteq> CHR ''/'') (rev p))"

text \<open>
  \<open>os.path.splitext(p)[0]\<close> on a POSIX system: the extension starts at the last dot of the
  last path component, unless only dots come before it in that component.
\<close>

definition splitext_root :: "string \<Rightarrow> string" where
  "splitext_root p =
     (let name = basename p;
          before_dot = rev (drop 1 (dropWhile (\<lambda>x. x \<noteq> CHR ''.'') (rev name)))
      in if CHR ''.'' \<in> set name \<and> filter (\<lambda>x. x \<noteq> CHR ''.'') before_dot \<noteq> []
         then take (length p - length name) p @ before_dot
         else p)"

text \<open>\<^verbatim>\<open>re.sub(r"-f[12]$", "", stem)\<close>, case-sensitive.\<close>

fun sub_f_end :: "string \<Rightarrow> string" where
  "sub_f_end [] = []"
| "sub_f_end (c # cs) =
     (if (take 3 (c # cs) = ''-f1'' \<or> take 3 (c # cs) = ''-f2'') \<and> at_end (drop 3 (c # cs))
      then drop 3 (c # cs)
      else c # sub_f_end cs)"

text \<open>
  \<^verbatim>\<open>re.search(r"(ccipra-[^/\\]+)$", stem, re.IGNORECASE)\<close>: the class also matches a
  newline, so a match runs to the very end of the string, and there is one exactly where
  a non-empty text without slash or backslash follows the literal.
\<close>

fun ccipra_tail :: "string \<Rightarrow> string option" where
  "ccipra_tail [] = None"
| "ccipra_tail (c # cs) =
     (if startswith_ci (c # cs) ''ccipra-'' \<and> drop 7 (c # cs) \<noteq> []
         \<and> filter (\<lambda>x. x = CHR ''/'' \<or> x = CHR 0x5C) (drop 7 (c # cs)) = []
      then Some (c # cs)
      else ccipra_tail cs)"

text \<open>
  \<open>_combined_csv_path\<close>. Every file of the run lives in \<open>out_dir\<close>, which the function
  creates if needed; a path is represented by the file's name in that directory.
\<close>

definition combined_csv_path :: "string \<Rightarrow> error + string" where
  "combined_csv_path base_f1_url =
     (case file_param base_f1_url of
        None \<Rightarrow> Inl AttributeError
      | Some f \<Rightarrow>
          (let base = basename f;
               stem = splitext_root base;
               stem = sub_f_end stem;
               final = (case ccipra_tail stem of Some t \<Rightarrow> t | None \<Rightarrow> stem)
           in Inr (final @ ''-f1f2.csv'')))"

section \<open>The version marker\<close>

text \<open>
  The file \<open>version.txt\<close> of \<open>out_dir\<close> is absent, or present but not readable as text
  (\<open>read_text\<close> raises), or present with a text.
\<close>

datatype marker_file = Absent | Unreadable | Content string

text \<open>
  \<^verbatim>\<open>re.match(r"(\d{4})q(\d)\s+v(\d{3})r(\d+)", txt)\<close>: anchored at the start only, so
  anything may follow the revision digits. After the greedy \<open>\s+\<close> the letter \<open>v\<close> must
  come, which is no space, so no backtracking is needed.
\<close>

fun marker_match :: "string \<Rightarrow> release option" where
  "marker_match (y1 # y2 # y3 # y4 # qc # qd # rest) =
     (if is_digit y1 \<and> is_digit y2 \<and> is_digit y3 \<and> is_digit y4 \<and> qc = CHR ''q'' \<and> is_digit qd
         \<and> takeWhile is_space rest \<noteq> []
      then (case dropWhile is_space rest of
              vc # v1 # v2 # v3 # rc # rs \<Rightarrow>
                if vc = CHR ''v'' \<and> is_digit v1 \<and> is_digit v2 \<and> is_digit v3 \<and> rc = CHR ''r''
                   \<and> takeWhile is_digit rs \<noteq> []
                then Some (int_of_digits [y1, y2, y3, y4], int_of_digits [qd],
                           int_of_digits [v1, v2, v3], int_of_digits (takeWhile is_digit rs))
                else None
            | _ \<Rightarrow> None)
      else None)"
| "marker_match _ = None"

definition read_local_version :: "marker_file \<Rightarrow> error + release option" where
  "read_local_version vf =
     (case vf of
        Absent \<Rightarrow> Inr None
      | Unreadable \<Rightarrow> Inl OSError_read
      | Content txt \<Rightarrow> Inr (marker_match (strip txt)))"

definition version_text :: "int \<Rightarrow> int \<Rightarrow> int \<Rightarrow> int \<Rightarrow> string" where
  "version_text y q v r =
     str_int y @ ''q'' @ str_int q @ '' v'' @ fmt_03d v @ ''r'' @ str_int r @ [CHR 0x0A]"

section \<open>The run\<close>

text \<open>
  The surroundings of a run: \<open>fetch_zip_via_license n url\<close> is what the gate fetcher
  returns for \<open>url\<close> when \<open>n\<close> fetches have been issued before it in this run, so the
  network may answer the same URL differently at different times; \<open>can_write name\<close> tells
  whether writing the file \<open>name\<close> of \<open>out_dir\<close> succeeds. A failed write raises and is
  taken to leave the file as it was.

  The durable state is the marker and the table files of \<open>out_dir\<close>. The log lists the
  fetches and the writes of a run in the order they happen.
\<close>

record env =
  fetch_zip_via_license :: "nat \<Rightarrow> string \<Rightarrow> bytes option"
  can_write :: "string \<Rightarrow> bool"

record disk =
  marker :: marker_file
  csv_files :: "string \<Rightarrow> csv_file option"

datatype event = Fetch string | Write_csv string | Write_marker string | Write_failed string

fun is_fetch :: "event \<Rightarrow> bool" where
  "is_fetch (Fetch u) = True"
| "is_fetch _ = False"

fun is_write :: "event \<Rightarrow> bool" where
  "is_write (Fetch u) = False"
| "is_write _ = True"

definition do_fetch :: "env \<Rightarrow> string \<Rightarrow> event list \<Rightarrow> bytes option \<times> event list" where
  "do_fetch e url log =
     (fetch_zip_via_license e (length (filter is_fetch log)) url, log @ [Fetch url])"

definition version_file :: string where
  "version_file = ''version.txt''"

definition to_csv :: "env \<Rightarrow> string \<Rightarrow> df \<Rightarrow> disk \<times> event list \<Rightarrow> error + (disk \<times> event list)" where
  "to_csv e path d st =
     (case st of (dk, log) \<Rightarrow>
        if can_write e path
        then Inr (dk\<lparr>csv_files := (csv_files dk)(path \<mapsto> csv_fields d)\<rparr>, log @ [Write_csv path])
        else Inl OSError_write)"

definition write_local_version ::
  "env \<Rightarrow> int \<Rightarrow> int \<Rightarrow> int \<Rightarrow> int \<Rightarrow> disk \<times> event list \<Rightarrow> error + (disk \<times> event list)" where
  "write_local_version e y q v r st =
     (case st of (dk, log) \<Rightarrow>
        if can_write e version_file
        then Inr (dk\<lparr>marker := Content (version_text y q v r)\<rparr>,
                  log @ [Write_marker (version_text y q v r)])
        else Inl OSError_write)"

datatype status = Up_to_date | Downloaded_initial release | Updated_to release

text \<open>
  The version the run starts from (lines 275 to 282): the stored one, if the marker gives
  one, else the one parsed from the base URL, version first, then quarter.
\<close>

definition resolve_version :: "string \<Rightarrow> marker_file \<Rightarrow> error + release" where
  "resolve_version base_f1_url vf =
     (case read_local_version vf of
        Inl e \<Rightarrow> Inl e
      | Inr (Some local) \<Rightarrow> Inr local
      | Inr None \<Rightarrow>
          (case parse_vr base_f1_url of
             Inl e \<Rightarrow> Inl e
           | Inr (v, r) \<Rightarrow>
               (case parse_quarter base_f1_url of
                  Inl e \<Rightarrow> Inl e
                | Inr (y, q) \<Rightarrow> Inr (y, q, v, r))))"

definition candidate_urls :: "string \<Rightarrow> release \<Rightarrow> string \<times> string" where
  "candidate_urls base_f1_url c =
     (case c of (cy, cq, cv, cr) \<Rightarrow> pair_f1_f2 (set_vr (set_quarter base_f1_url cy cq) cv cr))"

text \<open>
  The probing loop (lines 296 to 303). Python's \<open>and\<close> evaluates its second operand only
  when the first is true, and \<open>break\<close> leaves the loop at the first accepted candidate.
\<close>

fun probe ::
  "env \<Rightarrow> string \<Rightarrow> release list \<Rightarrow> event list \<Rightarrow>
     (release \<times> string \<times> string) option \<times> event list" where
  "probe e base_f1_url [] log = (None, log)"
| "probe e base_f1_url (c # cs) log =
     (let (f1, f2) = candidate_urls base_f1_url c;
          (r1, log1) = do_fetch e f1 log
      in if truthy r1
         then (let (r2, log2) = do_fetch e f2 log1
               in if truthy r2 then (Some (c, f1, f2), log2)
                  else probe e base_f1_url cs log2)
         else probe e base_f1_url cs log1)"

text \<open>
  The argument of \<open>_concat_dfs\<close> in both branches: the list display evaluates its elements
  from left to right, so file 2 is fetched only after file 1 has been read.
\<close>

definition fetch_and_concat ::
  "env \<Rightarrow> string \<Rightarrow> string \<Rightarrow> event list \<Rightarrow> (error + df) \<times> event list" where
  "fetch_and_concat e f1 f2 log =
     (let (b1, log1) = do_fetch e f1 log
      in case read_zip_to_df b1 of
           Inl err \<Rightarrow> (Inl err, log1)
         | Inr d1 \<Rightarrow>
             (let (b2, log2) = do_fetch e f2 log1
              in case read_zip_to_df b2 of
                   Inl err \<Rightarrow> (Inl err, log2)
                 | Inr d2 \<Rightarrow> (concat_dfs [d1, d2], log2)))"

text \<open>
  The two writes that end both branches (lines 314 to 315 and 323 to 324), in the order
  of the source. The result carries the disk and the log reached, also on failure.
\<close>

definition write_table_then_marker ::
  "env \<Rightarrow> string \<Rightarrow> df \<Rightarrow> release \<Rightarrow> disk \<times> event list \<Rightarrow> (error + unit) \<times> disk \<times> event list" where
  "write_table_then_marker e csv_path d c st =
     (case to_csv e csv_path d st of
        Inl err \<Rightarrow> (Inl err, fst st, snd st @ [Write_failed csv_path])
      | Inr st1 \<Rightarrow>
          (case c of (y, q, v, r) \<Rightarrow>
             (case write_local_version e y q v r st1 of
                Inl err \<Rightarrow> (Inl err, fst st1, snd st1 @ [Write_failed version_file])
              | Inr st2 \<Rightarrow> (Inr (), fst st2, snd st2))))"

definition download_or_skip_both_with_version ::
  "env \<Rightarrow> string \<Rightarrow> disk \<Rightarrow> (error + (string \<times> status)) \<times> disk \<times> event list" where
  "download_or_skip_both_with_version e base_f1_url dk =
     (case resolve_version base_f1_url (marker dk) of
        Inl err \<Rightarrow> (Inl err, dk, [])
      | Inr (y, q, v, r) \<Rightarrow>
          (let (target, log1) = probe e base_f1_url (candidates y q v r) []
           in case combined_csv_path base_f1_url of
                Inl err \<Rightarrow> (Inl err, dk, log1)
              | Inr csv_path \<Rightarrow>
                  (case target of
                     None \<Rightarrow>
                       if csv_files dk csv_path \<noteq> None then (Inr (csv_path, Up_to_date), dk, log1)
                       else
                         (let (f1, f2) = pair_f1_f2 base_f1_url
                          in case fetch_and_concat e f1 f2 log1 of
                               (Inl err, log2) \<Rightarrow> (Inl err, dk, log2)
                             | (Inr d, log2) \<Rightarrow>
                                 (case write_table_then_marker e csv_path d (y, q, v, r) (dk, log2) of
                                    (Inl err, dk3, log3) \<Rightarrow> (Inl err, dk3, log3)
                                  | (Inr u, dk3, log3) \<Rightarrow>
                                      (Inr (csv_path, Downloaded_initial (y, q, v, r)), dk3, log3)))
                   | Some (c, f1, f2) \<Rightarrow>
                       (case fetch_and_concat e f1 f2 log1 of
                          (Inl err, log2) \<Rightarrow> (Inl err, dk, log2)
                        | (Inr d, log2) \<Rightarrow>
                            (case combined_csv_path f1 of
                               Inl err \<Rightarrow> (Inl err, dk, log2)
                             | Inr csv_path2 \<Rightarrow>
                                 (case write_table_then_marker e csv_path2 d c (dk, log2) of
                                    (Inl err, dk3, log3) \<Rightarrow> (Inl err, dk3, log3)
                                  | (Inr u, dk3, log3) \<Rightarrow>
                                      (Inr (csv_path2, Updated_to c), dk3, log3)))))))"

section \<open>The edit-pair table of the web application\<close>

text \<open>
  \<open>load_cci_table\<close> of \<open>app.py\<close>, up to its first \<open>return table\<close> inside the function body
  (what follows it is never run). A row as \<open>csv.DictReader\<close> yields it is a dictionary,
  given here by its items in order: a key is a header name, or \<open>None\<close> when the row has
  more fields than the header; a value is a string, or \<open>None\<close> when the row is short.
  The input is the list of rows of the file, or \<open>None\<close> when the file does not exist.
\<close>

type_synonym raw_row = "(string option \<times> string option) list"

type_synonym cci_table = "string \<times> string \<Rightarrow> string option"

text \<open>\<^verbatim>\<open>re.sub(r"[^a-z0-9]+", "", k.lower())\<close>\<close>

definition is_lower_alnum :: "char \<Rightarrow> bool" where
  "is_lower_alnum c = (c \<in> set ''abcdefghijklmnopqrstuvwxyz'' \<or> is_digit c)"

definition normalize_key :: "string \<Rightarrow> string" where
  "normalize_key k = filter is_lower_alnum (lower k)"

text \<open>
  The dictionary comprehension: a later item replaces an earlier one with the same
  normalised key; calling \<open>lower\<close> on the key \<open>None\<close> raises.
\<close>

fun normalize_row :: "raw_row \<Rightarrow> (string \<Rightarrow> string option) \<Rightarrow> error + (string \<Rightarrow> string option)" where
  "normalize_row [] row = Inr row"
| "normalize_row ((k, v) # items) row =
     (case k of
        None \<Rightarrow> Inl AttributeError
      | Some key \<Rightarrow>
          normalize_row items
            (row(normalize_key key \<mapsto> strip (case v of None \<Rightarrow> [] | Some s \<Rightarrow> s))))"

text \<open>
  A chain \<open>row.get(k1) or row.get(k2) or ... or ""\<close>: the first value that is present and
  not empty, else the empty string.
\<close>

fun get_first :: "(string \<Rightarrow> string option) \<Rightarrow> string list \<Rightarrow> string" where
  "get_first row [] = []"
| "get_first row (k # ks) =
     (case row k of
        None \<Rightarrow> get_first row ks
      | Some s \<Rightarrow> if s \<noteq> [] then s else get_first row ks)"

fun load_rows :: "raw_row list \<Rightarrow> cci_table \<Rightarrow> error + cci_table" where
  "load_rows [] table = Inr table"
| "load_rows (raw # raws) table =
     (case normalize_row raw Map.empty of
        Inl e \<Rightarrow> Inl e
      | Inr row \<Rightarrow>
          (let c1 = get_first row [''column1'', ''col1'', ''c1'', ''column''];
               c2 = get_first row [''column2'', ''col2'', ''c2''];
               modifier = get_first row [''modifier'', ''mod'']
           in load_rows raws
                (if c1 \<noteq> [] \<and> c2 \<noteq> []
                 then (table((c1, c2) \<mapsto> modifier))((c2, c1) \<mapsto> modifier)
                 else table)))"

definition load_cci_table :: "raw_row list option \<Rightarrow> error + cci_table" where
  "load_cci_table file =
     (case file of
        None \<Rightarrow> Inr Map.empty
      | Some raws \<Rightarrow> load_rows raws Map.empty)"

section \<open>How a run can end\<close>

text \<open>
  The writes a run can end with, and the disk each leaves: the table write fails; the
  table is written and the marker write fails; both are written.
\<close>

definition run_end :: "env \<Rightarrow> disk \<Rightarrow> (error + unit) \<Rightarrow> disk \<Rightarrow> event list \<Rightarrow> bool" where
  "run_end e dk r dk' ws =
     ((\<exists>p. r = Inl OSError_write \<and> ws = [Write_failed p] \<and> dk' = dk \<and> \<not> can_write e p)
      \<or> (\<exists>p d. r = Inl OSError_write \<and> ws = [Write_csv p, Write_failed version_file] \<and> can_write e p
            \<and> dk' = dk\<lparr>csv_files := (csv_files dk)(p \<mapsto> csv_fields d)\<rparr>)
      \<or> (\<exists>p d t. r = Inr () \<and> ws = [Write_csv p, Write_marker t] \<and> can_write e p
            \<and> dk' = dk\<lparr>csv_files := (csv_files dk)(p \<mapsto> csv_fields d), marker := Content t\<rparr>))"

definition run_shape ::
  "env \<Rightarrow> disk \<Rightarrow> (error + (string \<times> status)) \<Rightarrow> disk \<Rightarrow> event list \<Rightarrow> bool" where
  "run_shape e dk res dk' log =
     (\<exists>fs ws. log = fs @ ws \<and> list_all is_fetch fs \<and>
        ((ws = [] \<and> dk' = dk)
         \<or> (\<exists>r. run_end e dk r dk' ws \<and>
                (case r of Inl err \<Rightarrow> res = Inl err | Inr u \<Rightarrow> \<exists>x. res = Inr x))))"

section \<open>Probing, rule by rule\<close>

text \<open>
  What probing does, candidate by candidate: \<open>probing e base n cs tgt urls\<close> says that
  probing the candidates \<open>cs\<close>, when \<open>n\<close> fetches have been issued before, fetches
  the URLs \<open>urls\<close> in this order and ends with \<open>tgt\<close>. File 1 of a candidate is
  fetched; file 2 is fetched only when file 1 came back; the candidate is accepted when
  both came back, and then nothing is fetched for the candidates after it.
\<close>

inductive probing ::
  "env \<Rightarrow> string \<Rightarrow> nat \<Rightarrow> release list \<Rightarrow> (release \<times> string \<times> string) option \<Rightarrow> string list \<Rightarrow> bool"
  for e :: env and base :: string where
  exhausted: "probing e base n [] None []"
| file1_absent:
    "candidate_urls base c = (f1, f2) \<Longrightarrow> \<not> truthy (fetch_zip_via_license e n f1) \<Longrightarrow>
     probing e base (Suc n) cs tgt urls \<Longrightarrow> probing e base n (c # cs) tgt (f1 # urls)"
| file2_absent:
    "candidate_urls base c = (f1, f2) \<Longrightarrow> truthy (fetch_zip_via_license e n f1) \<Longrightarrow>
     \<not> truthy (fetch_zip_via_license e (Suc n) f2) \<Longrightarrow>
     probing e base (Suc (Suc n)) cs tgt urls \<Longrightarrow> probing e base n (c # cs) tgt (f1 # f2 # urls)"
| accepted:
    "candidate_urls base c = (f1, f2) \<Longrightarrow> truthy (fetch_zip_via_license e n f1) \<Longrightarrow>
     truthy (fetch_zip_via_license e (Suc n) f2) \<Longrightarrow>
     probing e base n (c # cs) (Some (c, f1, f2)) [f1, f2]"

section \<open>Example inputs\<close>

text \<open>
  The base URL of the source's \<open>__main__\<close> block is \<open>example_url ''0'' ''1''\<close>. In the
  example network the two files of revisions 0 and 1 of version 313 of 2025q4 are
  published, each an archive with one text member, and nothing else is.
\<close>

definition example_url :: "string \<Rightarrow> string \<Rightarrow> string" where
  "example_url r f =
     ''https://www.cms.gov/license/ama?file=/files/zip/medicare-ncci-2025q4-practitioner-ptp-edits-ccipra-v313r''
     @ r @ ''-f'' @ f @ ''.zip''"

definition example_base :: string where
  "example_base = example_url ''0'' ''1''"

definition example_table :: df where
  "example_table = \<lparr>columns = [''Column 1'', ''Column 2'', ''Modifier''],
                    rows = [[Str ''11000'', Str ''11001'', Str ''1'']]\<rparr>"

definition example_zip :: bytes where
  "example_zip = Zip_bytes [(''ccipra.txt'', Blob None (Some example_table) None)]"

definition example_env :: env where
  "example_env =
     \<lparr>fetch_zip_via_license =
        (\<lambda>n url. if url \<in> set [example_url ''0'' ''1'', example_url ''0'' ''2'',
                                  example_url ''1'' ''1'', example_url ''1'' ''2'']
                  then Some example_zip else None),
      can_write = (\<lambda>name. True)\<rparr>"

definition silent_env :: env where
  "silent_env = \<lparr>fetch_zip_via_license = (\<lambda>n url. None), can_write = (\<lambda>name. True)\<rparr>"

definition empty_disk :: disk where
  "empty_disk = \<lparr>marker = Absent, csv_files = (\<lambda>name. None)\<rparr>"

text \<open>
  A network that answers the two files of revision 1 with an archive holding only a
  \<open>.pdf\<close> member; a disk that holds version 313 revision 0 and its table; a disk whose
  marker has no version in it; a disk whose marker cannot be read.
\<close>

definition pdf_zip :: bytes where
  "pdf_zip = Zip_bytes [(''readme.pdf'', Blob None None None)]"

definition pdf_env :: env where
  "pdf_env =
     \<lparr>fetch_zip_via_license =
        (\<lambda>n url. if url \<in> set [example_url ''1'' ''1'', example_url ''1'' ''2'']
                  then Some pdf_zip else None),
      can_write = (\<lambda>name. True)\<rparr>"

definition stocked_disk :: disk where
  "stocked_disk =
     \<lparr>marker = Content (''2025q4 v313r0'' @ [CHR 0x0A]),
      csv_files = (\<lambda>name. if name = ''ccipra-v313r0-f1f2.csv'' then Some (csv_fields example_table)
                            else None)\<rparr>"

definition garbled_disk :: disk where
  "garbled_disk = \<lparr>marker = Content ''not a version'', csv_files = (\<lambda>name. None)\<rparr>"

definition unreadable_disk :: disk where
  "unreadable_disk = \<lparr>marker = Unreadable, csv_files = (\<lambda>name. None)\<rparr>"

text \<open>
  Three rows of an edit table as \<open>csv.DictReader\<close> yields them: a pair, the same pair
  the other way round with another modifier, and a short row.
\<close>

definition example_rows :: "raw_row list" where
  "example_rows =
     [[(Some ''Column 1'', Some ''11000''), (Some ''Column 2'', Some '' 11001''),
       (Some ''Modifier'', Some ''1'')],
      [(Some ''Column 1'', Some ''11001''), (Some ''Column 2'', Some ''11000''),
       (Some ''Modifier'', Some ''0'')],
      [(Some ''Column 1'', Some ''11002''), (Some ''Column 2'', None), (Some ''Modifier'', None)]]"

text \<open>
  The cell of a row of table \<open>d\<close> under the column named \<open>c\<close> (\<open>NaN\<close> when there is no
  such cell), and three small tables.
\<close>

definition cell_of :: "df \<Rightarrow> cell list \<Rightarrow> string \<Rightarrow> cell" where
  "cell_of d row c = (case map_of (zip (columns d) row) c of None \<Rightarrow> NaN | Some x \<Rightarrow> x)"

definition table_xy :: df where
  "table_xy = \<lparr>columns = [''X'', ''Y''], rows = [[Str ''1'', Str ''2'']]\<rparr>"

definition table_yz :: df where
  "table_yz = \<lparr>columns = [''Y'', ''Z''], rows = [[Str ''3'', Str ''4'']]\<rparr>"

definition table_xx :: df where
  "table_xx = \<lparr>columns = [''X'', ''X''], rows = [[Str ''5'', Str ''6'']]\<rparr>"

section \<open>Candidate generation\<close>

lemma upto_five: "[r + 1..r + 5] = [r + 1, r + 2, r + 3, r + 4, r + (5::int)]"
proof -
  have "[r + 1..r + 5] = (r + 1) # [r + 2..r + 5]" by (simp add: upto_rec1)
  moreover have "[r + 2..r + 5] = (r + 2) # [r + 3..r + 5]" by (simp add: upto_rec1)
  moreover have "[r + 3..r + 5] = (r + 3) # [r + 4..r + 5]" by (simp add: upto_rec1)
  moreover have "[r + 4..r + 5] = (r + 4) # [r + 5..r + 5]" by (simp add: upto_rec1)
  ultimately show ?thesis by simp
qed

text \<open>
  Claim C6. For a starting identifier \<open>(y, q, v, r)\<close> with \<open>q\<close> between 1 and 4 the
  candidate list has exactly eight entries, in this order: revisions \<open>r + 1\<close> to
  \<open>r + 5\<close> of the same version and quarter, then version \<open>v + 1\<close> revision 0 of the
  same quarter, then version \<open>v + 1\<close> revision 0 of the next quarter, then version \<open>v\<close>
  revision 0 of the next quarter, where the next quarter of \<open>(y, 4)\<close> is \<open>(y + 1, 1)\<close>.
\<close>

theorem candidates_order:
  assumes "q \<in> {1, 2, 3, 4}"
  shows "candidates y q v r =
           [(y, q, v, r + 1), (y, q, v, r + 2), (y, q, v, r + 3), (y, q, v, r + 4),
            (y, q, v, r + 5), (y, q, v + 1, 0),
            (if q < 4 then y else y + 1, if q < 4 then q + 1 else 1, v + 1, 0),
            (if q < 4 then y else y + 1, if q < 4 then q + 1 else 1, v, 0)]
         \<and> length (candidates y q v r) = 8"
  by (simp add: candidates_def next_quarter_def upto_five)

theorem candidates_order_witness:
  "(4::int) \<in> {1, 2, 3, 4} \<and>
   candidates 2025 4 313 0 =
     [(2025, 4, 313, 1), (2025, 4, 313, 2), (2025, 4, 313, 3), (2025, 4, 313, 4),
      (2025, 4, 313, 5), (2025, 4, 314, 0), (2026, 1, 314, 0), (2026, 1, 313, 0)]"
  using candidates_order [of 4 2025 313 0] by simp

section \<open>The log and the disk of a run\<close>

lemma do_fetch_log: "do_fetch e u log = (r, log') \<Longrightarrow> log' = log @ [Fetch u]"
  by (auto simp: do_fetch_def)

lemma probe_log:
  "probe e base cs log = (tgt, log') \<Longrightarrow> \<exists>fs. log' = log @ fs \<and> list_all is_fetch fs"
proof (induction cs arbitrary: log)
  case Nil
  then show ?case by simp
next
  case (Cons c cs)
  obtain f1 f2 where u: "candidate_urls base c = (f1, f2)" by (cases "candidate_urls base c")
  obtain r1 where d1: "do_fetch e f1 log = (r1, log @ [Fetch f1])" by (simp add: do_fetch_def)
  obtain r2 where d2: "do_fetch e f2 (log @ [Fetch f1]) = (r2, log @ [Fetch f1, Fetch f2])"
    by (simp add: do_fetch_def)
  show ?case
  proof (cases "truthy r1")
    case False
    with Cons.prems u d1 have "probe e base cs (log @ [Fetch f1]) = (tgt, log')" by simp
    from Cons.IH[OF this] obtain fs where "log' = (log @ [Fetch f1]) @ fs" "list_all is_fetch fs" by blast
    then have "log' = log @ (Fetch f1 # fs) \<and> list_all is_fetch (Fetch f1 # fs)" by simp
    then show ?thesis by blast
  next
    case True
    show ?thesis
    proof (cases "truthy r2")
      case False
      with True Cons.prems u d1 d2 have "probe e base cs (log @ [Fetch f1, Fetch f2]) = (tgt, log')" by simp
      from Cons.IH[OF this] obtain fs where "log' = (log @ [Fetch f1, Fetch f2]) @ fs" "list_all is_fetch fs" by blast
      then have "log' = log @ (Fetch f1 # Fetch f2 # fs) \<and> list_all is_fetch (Fetch f1 # Fetch f2 # fs)" by simp
      then show ?thesis by blast
    next
      case t2: True
      with True Cons.prems u d1 d2 have "log' = log @ [Fetch f1, Fetch f2]" by simp
      then have "log' = log @ [Fetch f1, Fetch f2] \<and> list_all is_fetch [Fetch f1, Fetch f2]" by simp
      then show ?thesis by blast
    qed
  qed
qed

lemma fetch_and_concat_log:
  "fetch_and_concat e f1 f2 log = (r, log') \<Longrightarrow> \<exists>fs. log' = log @ fs \<and> list_all is_fetch fs"
  unfolding fetch_and_concat_def do_fetch_def
  by (auto simp: Let_def split: sum.splits)

lemma write_table_then_marker_end:
  "write_table_then_marker e p d c (dk, log) = (r, dk', log') \<Longrightarrow>
     \<exists>ws. log' = log @ ws \<and> run_end e dk r dk' ws"
  unfolding write_table_then_marker_def to_csv_def write_local_version_def run_end_def
  by (cases c) (auto split: if_splits)

lemma run_shape_no_write: "list_all is_fetch log \<Longrightarrow> run_shape e dk res dk log"
  unfolding run_shape_def by (rule exI[of _ log], rule exI[of _ "[]"]) simp

lemma run_shape_write:
  assumes "list_all is_fetch log2"
    and "write_table_then_marker e p d c (dk, log2) = (r, dk3, log3)"
    and "case r of Inl err \<Rightarrow> res = Inl err | Inr u \<Rightarrow> \<exists>x. res = Inr x"
  shows "run_shape e dk res dk3 log3"
proof -
  from write_table_then_marker_end[OF assms(2)] obtain ws
    where "log3 = log2 @ ws" "run_end e dk r dk3 ws" by blast
  with assms(1,3) show ?thesis unfolding run_shape_def by blast
qed

lemma fetch_and_concat_fetches:
  "fetch_and_concat e f1 f2 log = (r, log') \<Longrightarrow> list_all is_fetch log \<Longrightarrow> list_all is_fetch log'"
  by (drule fetch_and_concat_log) auto

lemma probe_fetches:
  "probe e base cs [] = (tgt, log') \<Longrightarrow> list_all is_fetch log'"
  by (drule probe_log) auto

lemma run_has_shape:
  assumes run: "download_or_skip_both_with_version e base dk = (res, dk', log)"
  shows "run_shape e dk res dk' log"
proof (cases "resolve_version base (marker dk)")
  case (Inl err)
  with run have "dk' = dk" "log = []"
    by (simp_all add: download_or_skip_both_with_version_def)
  then show ?thesis using run_shape_no_write[of "[]"] by simp
next
  case (Inr rel)
  obtain y q v r where rel: "rel = (y, q, v, r)" by (cases rel)
  obtain tgt log1 where pr: "probe e base (candidates y q v r) [] = (tgt, log1)"
    by (cases "probe e base (candidates y q v r) []")
  have f1: "list_all is_fetch log1" using probe_fetches[OF pr] .
  show ?thesis
  proof (cases "combined_csv_path base")
    case (Inl err)
    with run Inr rel pr have "dk' = dk" "log = log1"
      by (simp_all add: download_or_skip_both_with_version_def)
    then show ?thesis using run_shape_no_write[OF f1] by simp
  next
    case path: (Inr csv_path)
    show ?thesis
    proof (cases tgt)
      case None
      show ?thesis
      proof (cases "csv_files dk csv_path \<noteq> None")
        case True
        with run Inr rel pr path None have "dk' = dk" "log = log1"
          by (simp_all add: download_or_skip_both_with_version_def)
        then show ?thesis using run_shape_no_write[OF f1] by simp
      next
        case False
        obtain u1 u2 where us: "pair_f1_f2 base = (u1, u2)" by (cases "pair_f1_f2 base")
        obtain rd log2 where fc: "fetch_and_concat e u1 u2 log1 = (rd, log2)"
          by (cases "fetch_and_concat e u1 u2 log1")
        have f2: "list_all is_fetch log2" using fetch_and_concat_fetches[OF fc f1] .
        show ?thesis
        proof (cases rd)
          case (Inl err)
          with run Inr rel pr path None False us fc have "dk' = dk" "log = log2"
            by (simp_all add: download_or_skip_both_with_version_def)
          then show ?thesis using run_shape_no_write[OF f2] by simp
        next
          case d: (Inr d)
          obtain r3 dk3 log3 where w: "write_table_then_marker e csv_path d (y, q, v, r) (dk, log2) = (r3, dk3, log3)"
            by (cases "write_table_then_marker e csv_path d (y, q, v, r) (dk, log2)")
          from run Inr rel pr path None False us fc d w
          have "dk' = dk3 \<and> log = log3 \<and> (case r3 of Inl err \<Rightarrow> res = Inl err | Inr u \<Rightarrow> \<exists>x. res = Inr x)"
            by (cases r3) (auto simp add: download_or_skip_both_with_version_def)
          then show ?thesis using run_shape_write[OF f2 w] by simp
        qed
      qed
    next
      case (Some t)
      obtain c u1 u2 where t: "t = (c, u1, u2)" by (cases t)
      obtain rd log2 where fc: "fetch_and_concat e u1 u2 log1 = (rd, log2)"
        by (cases "fetch_and_concat e u1 u2 log1")
      have f2: "list_all is_fetch log2" using fetch_and_concat_fetches[OF fc f1] .
      show ?thesis
      proof (cases rd)
        case (Inl err)
        with run Inr rel pr path Some t fc have "dk' = dk" "log = log2"
          by (simp_all add: download_or_skip_both_with_version_def)
        then show ?thesis using run_shape_no_write[OF f2] by simp
      next
        case d: (Inr d)
        show ?thesis
        proof (cases "combined_csv_path u1")
          case (Inl err)
          with run Inr rel pr path Some t fc d have "dk' = dk" "log = log2"
            by (simp_all add: download_or_skip_both_with_version_def)
          then show ?thesis using run_shape_no_write[OF f2] by simp
        next
          case p2: (Inr csv_path2)
          obtain r3 dk3 log3 where w: "write_table_then_marker e csv_path2 d c (dk, log2) = (r3, dk3, log3)"
            by (cases "write_table_then_marker e csv_path2 d c (dk, log2)")
          from run Inr rel pr path Some t fc d p2 w
          have "dk' = dk3 \<and> log = log3 \<and> (case r3 of Inl err \<Rightarrow> res = Inl err | Inr u \<Rightarrow> \<exists>x. res = Inr x)"
            by (cases r3) (auto simp add: download_or_skip_both_with_version_def)
          then show ?thesis using run_shape_write[OF f2 w] by simp
        qed
      qed
    qed
  qed
qed


lemma run_end_cases:
  assumes "run_end e dk r dk' ws"
  shows "(\<exists>p. ws = [Write_failed p] \<and> dk' = dk \<and> r = Inl OSError_write)
       \<or> (\<exists>p d. ws = [Write_csv p, Write_failed version_file] \<and> can_write e p \<and> r = Inl OSError_write
              \<and> dk' = dk\<lparr>csv_files := (csv_files dk)(p \<mapsto> csv_fields d)\<rparr>)
       \<or> (\<exists>p d t. ws = [Write_csv p, Write_marker t] \<and> can_write e p \<and> r = Inr ()
              \<and> dk' = dk\<lparr>csv_files := (csv_files dk)(p \<mapsto> csv_fields d), marker := Content t\<rparr>)"
  using assms unfolding run_end_def by blast

lemma fetches_nth: "list_all is_fetch fs \<Longrightarrow> i < length fs \<Longrightarrow> is_fetch (fs ! i)"
  by (simp add: list_all_length)

text \<open>
  Claim C1. In every run the marker is written only after the table: a marker write in
  the log comes directly after a successful table write, whose file is on the disk the
  run leaves; and in a run whose log has no successful table write (the table write
  failed, or the run never reached it) the marker is what it was and no marker write
  took place.
\<close>

theorem marker_written_after_table:
  assumes run: "download_or_skip_both_with_version e base dk = (res, dk', log)"
  shows "(\<forall>i<length log. \<forall>t. log ! i = Write_marker t \<longrightarrow>
            0 < i \<and> (\<exists>p. log ! (i - 1) = Write_csv p \<and> can_write e p \<and> csv_files dk' p \<noteq> None))
         \<and> ((\<forall>p. Write_csv p \<notin> set log) \<longrightarrow> marker dk' = marker dk \<and> (\<forall>t. Write_marker t \<notin> set log))"
proof -
  from run_has_shape[OF run] obtain fs ws where log: "log = fs @ ws" and fs: "list_all is_fetch fs"
    and ws: "(ws = [] \<and> dk' = dk) \<or> (\<exists>r. run_end e dk r dk' ws)"
    unfolding run_shape_def by blast
  have nofetch: "\<And>t. Write_marker t \<notin> set fs" "\<And>p. Write_csv p \<notin> set fs"
    using fs by (auto simp: list_all_iff)
  from ws consider (none) "ws = []" "dk' = dk"
    | (csv_failed) p where "ws = [Write_failed p]" "dk' = dk"
    | (marker_failed) p d where "ws = [Write_csv p, Write_failed version_file]"
        "dk' = dk\<lparr>csv_files := (csv_files dk)(p \<mapsto> csv_fields d)\<rparr>"
    | (both) p d t where "ws = [Write_csv p, Write_marker t]" "can_write e p"
        "dk' = dk\<lparr>csv_files := (csv_files dk)(p \<mapsto> csv_fields d), marker := Content t\<rparr>"
    using run_end_cases by blast
  then show ?thesis
  proof cases
    case none
    with log fs nofetch show ?thesis by (auto simp: list_all_length)
  next
    case csv_failed
    with log fs nofetch show ?thesis
      by (auto simp: list_all_length nth_append split: if_splits)
  next
    case marker_failed
    with log fs nofetch show ?thesis
      by (auto simp: list_all_length nth_append nth_Cons split: if_splits nat.splits)
  next
    case both
    have "\<And>i t'. i < length log \<Longrightarrow> log ! i = Write_marker t' \<Longrightarrow> i = Suc (length fs)"
    proof -
      fix i t' assume i: "i < length log" "log ! i = Write_marker t'"
      show "i = Suc (length fs)"
      proof (cases "i < length fs")
        case True
        then have "is_fetch (log ! i)" using fetches_nth[OF fs] log by (simp add: nth_append)
        with i show ?thesis by simp
      next
        case False
        then have "i = length fs \<or> i = Suc (length fs)" using i(1) log both(1) by auto
        then show ?thesis using i(2) log both(1) by (auto simp: nth_append)
      qed
    qed
    moreover have "log ! (Suc (length fs) - 1) = Write_csv p" using log both(1) by (simp add: nth_append)
    moreover have "csv_files dk' p \<noteq> None" using both(3) by simp
    moreover have "Write_csv p \<in> set log" using log both(1) by simp
    ultimately show ?thesis using both(2) by (metis zero_less_Suc)
  qed
qed


lemma example_run:
  "download_or_skip_both_with_version example_env example_base empty_disk =
     (fst (download_or_skip_both_with_version example_env example_base empty_disk),
      fst (snd (download_or_skip_both_with_version example_env example_base empty_disk)),
      snd (snd (download_or_skip_both_with_version example_env example_base empty_disk)))"
  by simp

lemma example_log:
  "snd (snd (download_or_skip_both_with_version example_env example_base empty_disk)) =
     [Fetch (example_url ''1'' ''1''), Fetch (example_url ''1'' ''2''),
      Fetch (example_url ''1'' ''1''), Fetch (example_url ''1'' ''2''),
      Write_csv ''ccipra-v313r1-f1f2.csv'', Write_marker (''2025q4 v313r1'' @ [CHR 0x0A])]"
  by code_simp

theorem marker_written_after_table_witness:
  "\<exists>res dk' log. download_or_skip_both_with_version example_env example_base empty_disk = (res, dk', log)
     \<and> log ! 5 = Write_marker (''2025q4 v313r1'' @ [CHR 0x0A])
     \<and> log ! 4 = Write_csv ''ccipra-v313r1-f1f2.csv''
     \<and> (\<exists>p. log ! (5 - 1) = Write_csv p \<and> can_write example_env p \<and> csv_files dk' p \<noteq> None)"
proof -
  let ?R = "download_or_skip_both_with_version example_env example_base empty_disk"
  have len: "5 < length (snd (snd ?R))" and m: "snd (snd ?R) ! 5 = Write_marker (''2025q4 v313r1'' @ [CHR 0x0A])"
    and c: "snd (snd ?R) ! 4 = Write_csv ''ccipra-v313r1-f1f2.csv''"
    by (simp_all add: example_log)
  from marker_written_after_table[OF example_run] len m
  have "\<exists>p. snd (snd ?R) ! (5 - 1) = Write_csv p \<and> can_write example_env p \<and> csv_files (fst (snd ?R)) p \<noteq> None"
    by blast
  with m c example_run show ?thesis by blast
qed

lemma count_fetches: "list_all is_fetch log \<Longrightarrow> length (filter is_fetch log) = length log"
  by (induction log) auto

lemma fetch_and_concat_ok:
  assumes "fetch_and_concat e f1 f2 log = (Inr d, log')" and "list_all is_fetch log"
  shows "log' = log @ [Fetch f1, Fetch f2]
         \<and> (\<exists>d1 d2. read_zip_to_df (fetch_zip_via_license e (length log) f1) = Inr d1
                    \<and> read_zip_to_df (fetch_zip_via_license e (Suc (length log)) f2) = Inr d2)"
  using assms unfolding fetch_and_concat_def do_fetch_def
  by (auto simp: Let_def count_fetches split: sum.splits)

lemma write_table_then_marker_ok:
  "write_table_then_marker e p d c (dk, log) = (Inr u, dk', log') \<Longrightarrow>
     \<exists>t. log' = log @ [Write_csv p, Write_marker t]"
  unfolding write_table_then_marker_def to_csv_def write_local_version_def
  by (cases c) (auto split: if_splits)

lemma run_success_reads:
  assumes run: "download_or_skip_both_with_version e base dk = (Inr (p, s), dk', log)"
    and s: "s \<noteq> Up_to_date"
  shows "\<exists>fs u1 u2 d1 d2 t. log = fs @ [Fetch u1, Fetch u2, Write_csv p, Write_marker t]
           \<and> list_all is_fetch fs
           \<and> read_zip_to_df (fetch_zip_via_license e (length fs) u1) = Inr d1
           \<and> read_zip_to_df (fetch_zip_via_license e (Suc (length fs)) u2) = Inr d2"
proof -
  obtain rel where rv: "resolve_version base (marker dk) = Inr rel"
    using run by (cases "resolve_version base (marker dk)")
      (simp_all add: download_or_skip_both_with_version_def)
  obtain y q v r where rel: "rel = (y, q, v, r)" by (cases rel)
  obtain tgt log1 where pr: "probe e base (candidates y q v r) [] = (tgt, log1)"
    by (cases "probe e base (candidates y q v r) []")
  have f1: "list_all is_fetch log1" using probe_fetches[OF pr] .
  obtain csv_path where path: "combined_csv_path base = Inr csv_path"
    using run rv rel pr by (cases "combined_csv_path base")
      (simp_all add: download_or_skip_both_with_version_def)
  show ?thesis
  proof (cases tgt)
    case None
    have nex: "csv_files dk csv_path = None"
    proof (cases "csv_files dk csv_path")
      case (Some a)
      with run rv rel pr path \<open>tgt = None\<close> have "s = Up_to_date"
        by (simp add: download_or_skip_both_with_version_def)
      with s show ?thesis by simp
    qed simp
    obtain u1 u2 where us: "pair_f1_f2 base = (u1, u2)" by (cases "pair_f1_f2 base")
    obtain rd log2 where fc: "fetch_and_concat e u1 u2 log1 = (rd, log2)"
      by (cases "fetch_and_concat e u1 u2 log1")
    obtain d where d: "rd = Inr d"
      using run rv rel pr path None nex us fc
      by (cases rd) (simp_all add: download_or_skip_both_with_version_def)
    obtain r3 dk3 log3 where w: "write_table_then_marker e csv_path d (y, q, v, r) (dk, log2) = (r3, dk3, log3)"
      by (cases "write_table_then_marker e csv_path d (y, q, v, r) (dk, log2)")
    from run rv rel pr path None nex us fc d w
    have r3: "r3 = Inr ()" "log = log3" "p = csv_path"
      by (cases r3; simp add: download_or_skip_both_with_version_def)+
    from write_table_then_marker_ok[OF w[unfolded r3(1)]] obtain t
      where "log3 = log2 @ [Write_csv csv_path, Write_marker t]" by blast
    moreover note fetch_and_concat_ok[OF fc[unfolded d] f1]
    ultimately show ?thesis using r3 f1 by auto
  next
    case (Some tg)
    obtain c u1 u2 where t: "tg = (c, u1, u2)" by (cases tg)
    obtain rd log2 where fc: "fetch_and_concat e u1 u2 log1 = (rd, log2)"
      by (cases "fetch_and_concat e u1 u2 log1")
    obtain d where d: "rd = Inr d"
      using run rv rel pr path Some t fc
      by (cases rd) (simp_all add: download_or_skip_both_with_version_def)
    obtain csv_path2 where p2: "combined_csv_path u1 = Inr csv_path2"
      using run rv rel pr path Some t fc d
      by (cases "combined_csv_path u1") (simp_all add: download_or_skip_both_with_version_def)
    obtain r3 dk3 log3 where w: "write_table_then_marker e csv_path2 d c (dk, log2) = (r3, dk3, log3)"
      by (cases "write_table_then_marker e csv_path2 d c (dk, log2)")
    from run rv rel pr path Some t fc d p2 w
    have r3: "r3 = Inr ()" "log = log3" "p = csv_path2"
      by (cases r3; simp add: download_or_skip_both_with_version_def)+
    from write_table_then_marker_ok[OF w[unfolded r3(1)]] obtain t
      where "log3 = log2 @ [Write_csv csv_path2, Write_marker t]" by blast
    moreover note fetch_and_concat_ok[OF fc[unfolded d] f1]
    ultimately show ?thesis using r3 f1 by auto
  qed
qed

text \<open>
  Claim C9. A run that ends with the error of a missing data member or with a parse
  error leaves the disk exactly as it found it, and its log holds fetches only: neither
  the table nor the marker is written. Conversely a run that ends with the status of a
  download or an update has read both payloads it fetched last without error, so a
  payload that fails to extract or parse cannot lead to a successful end.
\<close>

theorem fatal_failure_leaves_disk_unchanged:
  assumes run: "download_or_skip_both_with_version e base dk = (res, dk', log)"
  shows "(res = Inl FileNotFoundError \<or> res = Inl ParseError \<longrightarrow> dk' = dk \<and> list_all is_fetch log)
         \<and> ((\<exists>p s. res = Inr (p, s) \<and> s \<noteq> Up_to_date) \<longrightarrow>
              (\<exists>fs u1 u2 d1 d2 ws. log = fs @ [Fetch u1, Fetch u2] @ ws \<and> list_all is_fetch fs
                 \<and> read_zip_to_df (fetch_zip_via_license e (length fs) u1) = Inr d1
                 \<and> read_zip_to_df (fetch_zip_via_license e (Suc (length fs)) u2) = Inr d2))"
proof (rule conjI; rule impI)
  assume err: "res = Inl FileNotFoundError \<or> res = Inl ParseError"
  from run_has_shape[OF run] obtain fs ws where log: "log = fs @ ws" and fs: "list_all is_fetch fs"
    and ws: "(ws = [] \<and> dk' = dk) \<or> (\<exists>r. run_end e dk r dk' ws \<and>
                (case r of Inl err \<Rightarrow> res = Inl err | Inr u \<Rightarrow> \<exists>x. res = Inr x))"
    unfolding run_shape_def by blast
  from ws show "dk' = dk \<and> list_all is_fetch log"
  proof
    assume "ws = [] \<and> dk' = dk"
    with log fs show "dk' = dk \<and> list_all is_fetch log" by simp
  next
    assume "\<exists>r. run_end e dk r dk' ws \<and>
                (case r of Inl err \<Rightarrow> res = Inl err | Inr u \<Rightarrow> \<exists>x. res = Inr x)"
    then obtain r where r: "run_end e dk r dk' ws"
      "case r of Inl err \<Rightarrow> res = Inl err | Inr u \<Rightarrow> \<exists>x. res = Inr x" by blast
    from run_end_cases[OF r(1)] have "r = Inl OSError_write \<or> r = Inr ()" by blast
    with r(2) err show "dk' = dk \<and> list_all is_fetch log" by auto
  qed
next
  assume "\<exists>p s. res = Inr (p, s) \<and> s \<noteq> Up_to_date"
  then obtain p s where "res = Inr (p, s)" "s \<noteq> Up_to_date" by blast
  from run_success_reads[OF run[unfolded this(1)] this(2)]
  show "\<exists>fs u1 u2 d1 d2 ws. log = fs @ [Fetch u1, Fetch u2] @ ws \<and> list_all is_fetch fs
                 \<and> read_zip_to_df (fetch_zip_via_license e (length fs) u1) = Inr d1
                 \<and> read_zip_to_df (fetch_zip_via_license e (Suc (length fs)) u2) = Inr d2"
    by auto
qed


lemma resolve_version_malformed:
  "marker_match (strip txt) = None \<Longrightarrow> resolve_version base (Content txt) = resolve_version base Absent"
  by (simp add: resolve_version_def read_local_version_def)

lemma write_table_then_marker_without_marker:
  assumes "write_table_then_marker e p d c (dk, log) = (r, dk', log')"
  shows "\<exists>dk0'. write_table_then_marker e p d c (dk\<lparr>marker := Absent\<rparr>, log) = (r, dk0', log')
           \<and> csv_files dk0' = csv_files dk'
           \<and> (marker dk0' = marker dk' \<or> (marker dk' = marker dk \<and> marker dk0' = Absent))"
  using assms unfolding write_table_then_marker_def to_csv_def write_local_version_def
  by (cases c) (auto split: if_splits)


lemma run_cases [consumes 1, case_names resolve_failed path_failed up_to_date bootstrap_failed
    bootstrap update_failed update_path_failed update]:
  assumes run: "download_or_skip_both_with_version e base dk = (res, dk', log)"
  obtains err where "resolve_version base (marker dk) = Inl err" "res = Inl err" "dk' = dk" "log = []"
  | y q v r tgt err where "resolve_version base (marker dk) = Inr (y, q, v, r)"
      "probe e base (candidates y q v r) [] = (tgt, log)" "combined_csv_path base = Inl err"
      "res = Inl err" "dk' = dk"
  | y q v r csv_path where "resolve_version base (marker dk) = Inr (y, q, v, r)"
      "probe e base (candidates y q v r) [] = (None, log)" "combined_csv_path base = Inr csv_path"
      "csv_files dk csv_path \<noteq> None" "res = Inr (csv_path, Up_to_date)" "dk' = dk"
  | y q v r log1 csv_path u1 u2 err where "resolve_version base (marker dk) = Inr (y, q, v, r)"
      "probe e base (candidates y q v r) [] = (None, log1)" "combined_csv_path base = Inr csv_path"
      "csv_files dk csv_path = None" "pair_f1_f2 base = (u1, u2)"
      "fetch_and_concat e u1 u2 log1 = (Inl err, log)" "res = Inl err" "dk' = dk"
  | y q v r log1 csv_path u1 u2 d log2 r3 where "resolve_version base (marker dk) = Inr (y, q, v, r)"
      "probe e base (candidates y q v r) [] = (None, log1)" "combined_csv_path base = Inr csv_path"
      "csv_files dk csv_path = None" "pair_f1_f2 base = (u1, u2)"
      "fetch_and_concat e u1 u2 log1 = (Inr d, log2)"
      "write_table_then_marker e csv_path d (y, q, v, r) (dk, log2) = (r3, dk', log)"
      "res = (case r3 of Inl err \<Rightarrow> Inl err
              | Inr u \<Rightarrow> Inr (csv_path, Downloaded_initial (y, q, v, r)))"
  | y q v r log1 csv_path c u1 u2 err where "resolve_version base (marker dk) = Inr (y, q, v, r)"
      "probe e base (candidates y q v r) [] = (Some (c, u1, u2), log1)"
      "combined_csv_path base = Inr csv_path"
      "fetch_and_concat e u1 u2 log1 = (Inl err, log)" "res = Inl err" "dk' = dk"
  | y q v r log1 csv_path c u1 u2 d err where "resolve_version base (marker dk) = Inr (y, q, v, r)"
      "probe e base (candidates y q v r) [] = (Some (c, u1, u2), log1)"
      "combined_csv_path base = Inr csv_path"
      "fetch_and_concat e u1 u2 log1 = (Inr d, log)" "combined_csv_path u1 = Inl err"
      "res = Inl err" "dk' = dk"
  | y q v r log1 csv_path c u1 u2 d log2 csv_path2 r3 where
      "resolve_version base (marker dk) = Inr (y, q, v, r)"
      "probe e base (candidates y q v r) [] = (Some (c, u1, u2), log1)"
      "combined_csv_path base = Inr csv_path"
      "fetch_and_concat e u1 u2 log1 = (Inr d, log2)" "combined_csv_path u1 = Inr csv_path2"
      "write_table_then_marker e csv_path2 d c (dk, log2) = (r3, dk', log)"
      "res = (case r3 of Inl err \<Rightarrow> Inl err | Inr u \<Rightarrow> Inr (csv_path2, Updated_to c))"
proof (cases "resolve_version base (marker dk)")
  case (Inl err)
  with run have "res = Inl err" "dk' = dk" "log = []"
    by (simp_all add: download_or_skip_both_with_version_def)
  with Inl show thesis by (rule that(1))
next
  case (Inr rel)
  obtain y q v r where "rel = (y, q, v, r)" by (cases rel)
  with Inr have rv: "resolve_version base (marker dk) = Inr (y, q, v, r)" by simp
  obtain tgt log1 where pr: "probe e base (candidates y q v r) [] = (tgt, log1)"
    by (cases "probe e base (candidates y q v r) []")
  show thesis
  proof (cases "combined_csv_path base")
    case (Inl err)
    with run rv pr have "res = Inl err" "dk' = dk" "log = log1"
      by (simp_all add: download_or_skip_both_with_version_def)
    with rv pr Inl show thesis using that(2) by simp
  next
    case path: (Inr csv_path)
    show thesis
    proof (cases tgt)
      case None
      show thesis
      proof (cases "csv_files dk csv_path = None")
        case False
        with run rv pr path None have "res = Inr (csv_path, Up_to_date)" "dk' = dk" "log = log1"
          by (simp_all add: download_or_skip_both_with_version_def)
        with rv pr path None False show thesis using that(3) by simp
      next
        case nex: True
        obtain u1 u2 where us: "pair_f1_f2 base = (u1, u2)" by (cases "pair_f1_f2 base")
        obtain rd log2 where fc: "fetch_and_concat e u1 u2 log1 = (rd, log2)"
          by (cases "fetch_and_concat e u1 u2 log1")
        show thesis
        proof (cases rd)
          case (Inl err)
          with run rv pr path None nex us fc have "res = Inl err" "dk' = dk" "log = log2"
            by (simp_all add: download_or_skip_both_with_version_def)
          with rv pr path None nex us fc Inl show thesis using that(4) by simp
        next
          case d: (Inr d)
          obtain r3 dk3 log3
            where w: "write_table_then_marker e csv_path d (y, q, v, r) (dk, log2) = (r3, dk3, log3)"
            by (cases "write_table_then_marker e csv_path d (y, q, v, r) (dk, log2)")
          from run rv pr path None nex us fc d w
          have "dk' = dk3" "log = log3"
            "res = (case r3 of Inl err \<Rightarrow> Inl err
                    | Inr u \<Rightarrow> Inr (csv_path, Downloaded_initial (y, q, v, r)))"
            by (cases r3; simp add: download_or_skip_both_with_version_def)+
          with rv pr path None nex us fc d w show thesis using that(5) by simp
        qed
      qed
    next
      case (Some tg)
      obtain c u1 u2 where "tg = (c, u1, u2)" by (cases tg)
      with Some pr have pr': "probe e base (candidates y q v r) [] = (Some (c, u1, u2), log1)"
        by simp
      obtain rd log2 where fc: "fetch_and_concat e u1 u2 log1 = (rd, log2)"
        by (cases "fetch_and_concat e u1 u2 log1")
      show thesis
      proof (cases rd)
        case (Inl err)
        with run rv pr' path fc have "res = Inl err" "dk' = dk" "log = log2"
          by (simp_all add: download_or_skip_both_with_version_def)
        with rv pr' path fc Inl show thesis using that(6) by simp
      next
        case d: (Inr d)
        show thesis
        proof (cases "combined_csv_path u1")
          case (Inl err)
          with run rv pr' path fc d have "res = Inl err" "dk' = dk" "log = log2"
            by (simp_all add: download_or_skip_both_with_version_def)
          with rv pr' path fc d Inl show thesis using that(7) by simp
        next
          case p2: (Inr csv_path2)
          obtain r3 dk3 log3
            where w: "write_table_then_marker e csv_path2 d c (dk, log2) = (r3, dk3, log3)"
            by (cases "write_table_then_marker e csv_path2 d c (dk, log2)")
          from run rv pr' path fc d p2 w
          have "dk' = dk3" "log = log3"
            "res = (case r3 of Inl err \<Rightarrow> Inl err | Inr u \<Rightarrow> Inr (csv_path2, Updated_to c))"
            by (cases r3; simp add: download_or_skip_both_with_version_def)+
          with rv pr' path fc d p2 w show thesis using that(8) by simp
        qed
      qed
    qed
  qed
qed


lemma run_without_marker:
  assumes rv: "resolve_version base (marker dk) = resolve_version base Absent"
    and run: "download_or_skip_both_with_version e base dk = (res, dk', log)"
  shows "\<exists>dk0'. download_or_skip_both_with_version e base (dk\<lparr>marker := Absent\<rparr>) = (res, dk0', log)
           \<and> csv_files dk0' = csv_files dk'
           \<and> (marker dk0' = marker dk' \<or> (marker dk' = marker dk \<and> marker dk0' = Absent))"
  using run
proof (cases rule: run_cases)
  case (resolve_failed err)
  then show ?thesis using rv by (simp add: download_or_skip_both_with_version_def)
next
  case (path_failed y q v r tgt err)
  then show ?thesis using rv by (simp add: download_or_skip_both_with_version_def)
next
  case (up_to_date y q v r csv_path)
  then show ?thesis using rv by (simp add: download_or_skip_both_with_version_def)
next
  case (bootstrap_failed y q v r log1 csv_path u1 u2 err)
  then show ?thesis using rv by (simp add: download_or_skip_both_with_version_def)
next
  case (bootstrap y q v r log1 csv_path u1 u2 d log2 r3)
  from write_table_then_marker_without_marker[OF bootstrap(7)] obtain dk0'
    where w: "write_table_then_marker e csv_path d (y, q, v, r) (dk\<lparr>marker := Absent\<rparr>, log2) = (r3, dk0', log)"
      and rel: "csv_files dk0' = csv_files dk'"
        "marker dk0' = marker dk' \<or> (marker dk' = marker dk \<and> marker dk0' = Absent)"
    by blast
  have "download_or_skip_both_with_version e base (dk\<lparr>marker := Absent\<rparr>) = (res, dk0', log)"
    using bootstrap(1-6,8) rv w
    by (cases r3) (simp_all add: download_or_skip_both_with_version_def)
  with rel show ?thesis by blast
next
  case (update_failed y q v r log1 csv_path c u1 u2 err)
  then show ?thesis using rv by (simp add: download_or_skip_both_with_version_def)
next
  case (update_path_failed y q v r log1 csv_path c u1 u2 d err)
  then show ?thesis using rv by (simp add: download_or_skip_both_with_version_def)
next
  case (update y q v r log1 csv_path c u1 u2 d log2 csv_path2 r3)
  from write_table_then_marker_without_marker[OF update(6)] obtain dk0'
    where w: "write_table_then_marker e csv_path2 d c (dk\<lparr>marker := Absent\<rparr>, log2) = (r3, dk0', log)"
      and rel: "csv_files dk0' = csv_files dk'"
        "marker dk0' = marker dk' \<or> (marker dk' = marker dk \<and> marker dk0' = Absent)"
    by blast
  have "download_or_skip_both_with_version e base (dk\<lparr>marker := Absent\<rparr>) = (res, dk0', log)"
    using update(1-5,7) rv w
    by (cases r3) (simp_all add: download_or_skip_both_with_version_def)
  with rel show ?thesis by blast
qed

text \<open>
  Claim C8, as amended. When the marker is present and its stripped text does not start
  with a version, the run gives the result and the log of the run on the same disk
  without the marker, and leaves the same table files; the marker it leaves is the same
  too, unless the run did not write it, in which case it is still the old text. When
  the marker cannot be read, the run fails at once with the read error.
\<close>

theorem malformed_marker_treated_as_absent:
  "(\<forall>mtext res dk' log.
      marker dk = Content mtext \<and> marker_match (strip mtext) = None
      \<and> download_or_skip_both_with_version e base dk = (res, dk', log) \<longrightarrow>
      (\<exists>dk0'. download_or_skip_both_with_version e base (dk\<lparr>marker := Absent\<rparr>) = (res, dk0', log)
           \<and> csv_files dk0' = csv_files dk'
           \<and> (marker dk0' = marker dk' \<or> (marker dk' = marker dk \<and> marker dk0' = Absent))))
   \<and> (marker dk = Unreadable \<longrightarrow>
        download_or_skip_both_with_version e base dk = (Inl OSError_read, dk, []))"
proof (rule conjI)
  show "marker dk = Unreadable \<longrightarrow>
        download_or_skip_both_with_version e base dk = (Inl OSError_read, dk, [])"
    by (simp add: download_or_skip_both_with_version_def resolve_version_def read_local_version_def)
next
  show "\<forall>mtext res dk' log.
      marker dk = Content mtext \<and> marker_match (strip mtext) = None
      \<and> download_or_skip_both_with_version e base dk = (res, dk', log) \<longrightarrow>
      (\<exists>dk0'. download_or_skip_both_with_version e base (dk\<lparr>marker := Absent\<rparr>) = (res, dk0', log)
           \<and> csv_files dk0' = csv_files dk'
           \<and> (marker dk0' = marker dk' \<or> (marker dk' = marker dk \<and> marker dk0' = Absent)))"
  proof (intro allI impI, elim conjE)
    fix mtext res dk' log
    assume m: "marker dk = Content mtext" "marker_match (strip mtext) = None"
      and run: "download_or_skip_both_with_version e base dk = (res, dk', log)"
    have "resolve_version base (marker dk) = resolve_version base Absent"
      using m resolve_version_malformed by simp
    from run_without_marker[OF this run]
    show "\<exists>dk0'. download_or_skip_both_with_version e base (dk\<lparr>marker := Absent\<rparr>) = (res, dk0', log)
           \<and> csv_files dk0' = csv_files dk'
           \<and> (marker dk0' = marker dk' \<or> (marker dk' = marker dk \<and> marker dk0' = Absent))" .
  qed
qed

lemma run_triple: "R = (fst R, fst (snd R), snd (snd R))"
  by simp

lemma pdf_run:
  "fst (download_or_skip_both_with_version pdf_env example_base stocked_disk) = Inl FileNotFoundError"
  by code_simp

lemma example_result:
  "fst (download_or_skip_both_with_version example_env example_base empty_disk) =
     Inr (''ccipra-v313r1-f1f2.csv'', Updated_to (2025, 4, 313, 1))"
  by code_simp

theorem fatal_failure_leaves_disk_unchanged_witness:
  "fst (download_or_skip_both_with_version pdf_env example_base stocked_disk) = Inl FileNotFoundError
   \<and> fst (snd (download_or_skip_both_with_version pdf_env example_base stocked_disk)) = stocked_disk
   \<and> list_all is_fetch (snd (snd (download_or_skip_both_with_version pdf_env example_base stocked_disk)))
   \<and> fst (download_or_skip_both_with_version example_env example_base empty_disk) =
       Inr (''ccipra-v313r1-f1f2.csv'', Updated_to (2025, 4, 313, 1))
   \<and> (\<exists>fs u1 u2 d1 d2 ws.
         snd (snd (download_or_skip_both_with_version example_env example_base empty_disk)) =
           fs @ [Fetch u1, Fetch u2] @ ws
         \<and> read_zip_to_df (fetch_zip_via_license example_env (length fs) u1) = Inr d1
         \<and> read_zip_to_df (fetch_zip_via_license example_env (Suc (length fs)) u2) = Inr d2)"
proof -
  let ?P = "download_or_skip_both_with_version pdf_env example_base stocked_disk"
  let ?E = "download_or_skip_both_with_version example_env example_base empty_disk"
  have "fst (snd ?P) = stocked_disk \<and> list_all is_fetch (snd (snd ?P))"
    using fatal_failure_leaves_disk_unchanged[OF run_triple[of ?P]] pdf_run by blast
  moreover have "\<exists>fs u1 u2 d1 d2 ws. snd (snd ?E) = fs @ [Fetch u1, Fetch u2] @ ws
         \<and> read_zip_to_df (fetch_zip_via_license example_env (length fs) u1) = Inr d1
         \<and> read_zip_to_df (fetch_zip_via_license example_env (Suc (length fs)) u2) = Inr d2"
  proof -
    have "\<exists>p s. fst ?E = Inr (p, s) \<and> s \<noteq> Up_to_date" using example_result by simp
    with fatal_failure_leaves_disk_unchanged[OF run_triple[of ?E]] show ?thesis by blast
  qed
  ultimately show ?thesis using pdf_run example_result by blast
qed

lemma garbled_marker: "marker_match (strip ''not a version'') = None"
  by code_simp

theorem unreadable_marker_counterexample:
  "fst (download_or_skip_both_with_version example_env example_base unreadable_disk) = Inl OSError_read
   \<and> fst (download_or_skip_both_with_version example_env example_base
            (unreadable_disk\<lparr>marker := Absent\<rparr>)) =
       Inr (''ccipra-v313r1-f1f2.csv'', Updated_to (2025, 4, 313, 1))"
  by code_simp

theorem malformed_marker_treated_as_absent_witness:
  "marker garbled_disk = Content ''not a version'' \<and> marker_match (strip ''not a version'') = None
   \<and> (\<exists>dk0'. download_or_skip_both_with_version example_env example_base
                 (garbled_disk\<lparr>marker := Absent\<rparr>) =
               (fst (download_or_skip_both_with_version example_env example_base garbled_disk), dk0',
                snd (snd (download_or_skip_both_with_version example_env example_base garbled_disk))))
   \<and> marker unreadable_disk = Unreadable
   \<and> download_or_skip_both_with_version example_env example_base unreadable_disk =
       (Inl OSError_read, unreadable_disk, [])"
proof -
  let ?G = "download_or_skip_both_with_version example_env example_base garbled_disk"
  have m: "marker garbled_disk = Content ''not a version''" by (simp add: garbled_disk_def)
  have u: "marker unreadable_disk = Unreadable" by (simp add: unreadable_disk_def)
  from malformed_marker_treated_as_absent[of garbled_disk example_env example_base]
    m garbled_marker run_triple[of ?G]
  have "\<exists>dk0'. download_or_skip_both_with_version example_env example_base
                 (garbled_disk\<lparr>marker := Absent\<rparr>) = (fst ?G, dk0', snd (snd ?G))"
    by blast
  moreover from malformed_marker_treated_as_absent[of unreadable_disk example_env example_base] u
  have "download_or_skip_both_with_version example_env example_base unreadable_disk =
          (Inl OSError_read, unreadable_disk, [])" by blast
  ultimately show ?thesis using m u garbled_marker by blast
qed

section \<open>The edit-pair table is symmetric\<close>

lemma load_rows_sym:
  "load_rows raws t = Inr t' \<Longrightarrow> (\<forall>a b. t (a, b) = t (b, a)) \<Longrightarrow> t' (a, b) = t' (b, a)"
proof (induction raws arbitrary: t)
  case Nil
  then show ?case by simp
next
  case (Cons raw raws)
  show ?case
  proof (cases "normalize_row raw Map.empty")
    case (Inl e)
    with Cons.prems(1) show ?thesis by simp
  next
    case (Inr row)
    define c1 where "c1 = get_first row [''column1'', ''col1'', ''c1'', ''column'']"
    define c2 where "c2 = get_first row [''column2'', ''col2'', ''c2'']"
    define m where "m = get_first row [''modifier'', ''mod'']"
    define t1 where "t1 = (if c1 \<noteq> [] \<and> c2 \<noteq> [] then (t((c1, c2) \<mapsto> m))((c2, c1) \<mapsto> m) else t)"
    have step: "load_rows raws t1 = Inr t'"
      using Cons.prems(1) Inr unfolding t1_def c1_def c2_def m_def by (simp add: Let_def del: get_first.simps)
    have sym: "\<forall>a b. t1 (a, b) = t1 (b, a)"
    proof (intro allI)
      fix a b
      have old: "t (a, b) = t (b, a)" using Cons.prems(2) by blast
      show "t1 (a, b) = t1 (b, a)"
      proof (cases "c1 \<noteq> [] \<and> c2 \<noteq> []")
        case False
        then have "t1 = t" unfolding t1_def by (rule if_not_P)
        then show ?thesis using old by (simp only:)
      next
        case True
        then have t1: "t1 = (t((c1, c2) \<mapsto> m))((c2, c1) \<mapsto> m)"
          unfolding t1_def by (rule if_P)
        consider "(a, b) = (c1, c2)" | "(a, b) = (c2, c1)"
          | "(a, b) \<noteq> (c1, c2)" "(a, b) \<noteq> (c2, c1)"
          by blast
        then show ?thesis
        proof cases
          case 1
          then have "a = c1" "b = c2" by simp_all
          then show ?thesis unfolding t1 by (simp only: fun_upd_apply) simp
        next
          case 2
          then have "a = c2" "b = c1" by simp_all
          then show ?thesis unfolding t1 by (simp only: fun_upd_apply) simp
        next
          case 3
          then have r: "(b, a) \<noteq> (c2, c1)" "(b, a) \<noteq> (c1, c2)" by auto
          have "t1 (a, b) = t (a, b)" unfolding t1 using 3 by (simp only: fun_upd_apply if_False)
          moreover have "t1 (b, a) = t (b, a)" unfolding t1 using r by (simp only: fun_upd_apply if_False)
          ultimately show ?thesis using old by (simp only:)
        qed
      qed
    qed
    from Cons.IH[OF step sym] show ?thesis .
  qed
qed

lemma normalize_row_total:
  "list_all (\<lambda>kv. fst kv \<noteq> None) raw \<Longrightarrow> \<exists>row'. normalize_row raw row = Inr row'"
proof (induction raw arbitrary: row)
  case Nil
  then show ?case by simp
next
  case (Cons kv raw)
  obtain k v where kv: "kv = (k, v)" by (cases kv)
  with Cons.prems obtain key where k: "k = Some key" by auto
  from Cons.prems have "list_all (\<lambda>kv. fst kv \<noteq> None) raw" by simp
  from Cons.IH[OF this] show ?case unfolding kv k by simp
qed

lemma load_rows_total:
  "list_all (list_all (\<lambda>kv. fst kv \<noteq> None)) raws \<Longrightarrow> \<exists>t'. load_rows raws t = Inr t'"
proof (induction raws arbitrary: t)
  case Nil
  then show ?case by simp
next
  case (Cons raw raws)
  from Cons.prems obtain row where row: "normalize_row raw Map.empty = Inr row"
    using normalize_row_total[of raw Map.empty] by auto
  from Cons.prems have "list_all (list_all (\<lambda>kv. fst kv \<noteq> None)) raws" by simp
  from Cons.IH[OF this] show ?case using row by (simp add: Let_def del: get_first.simps)
qed

text \<open>
  Claim C10. The table \<open>load_cci_table\<close> returns is symmetric: a key and its reverse are
  both present or both absent, and when present they carry the same modifier. The loader
  does return a table for every file none of whose rows has more fields than the header.
\<close>

theorem load_cci_table_symmetric:
  "(load_cci_table src = Inr tbl \<longrightarrow> tbl (b, a) = tbl (a, b))
   \<and> ((\<forall>raws. src = Some raws \<longrightarrow> list_all (list_all (\<lambda>kv. fst kv \<noteq> None)) raws)
        \<longrightarrow> (\<exists>t. load_cci_table src = Inr t))"
proof (rule conjI; rule impI)
  assume l: "load_cci_table src = Inr tbl"
  show "tbl (b, a) = tbl (a, b)"
  proof (cases src)
    case None
    with l show ?thesis by (auto simp: load_cci_table_def)
  next
    case (Some raws)
    with l have "load_rows raws Map.empty = Inr tbl" by (simp add: load_cci_table_def)
    from load_rows_sym[OF this] show ?thesis by simp
  qed
next
  assume wf: "\<forall>raws. src = Some raws \<longrightarrow> list_all (list_all (\<lambda>kv. fst kv \<noteq> None)) raws"
  show "\<exists>t. load_cci_table src = Inr t"
  proof (cases src)
    case None
    then show ?thesis by (simp add: load_cci_table_def)
  next
    case (Some raws)
    with wf load_rows_total[of raws Map.empty] show ?thesis by (simp add: load_cci_table_def)
  qed
qed

lemma example_rows_entry:
  "(case load_cci_table (Some example_rows) of
      Inl e \<Rightarrow> False
    | Inr t \<Rightarrow> t (''11000'', ''11001'') = Some ''0'')"
  by code_simp

theorem load_cci_table_symmetric_witness:
  "\<exists>t. load_cci_table (Some example_rows) = Inr t
       \<and> t (''11000'', ''11001'') = Some ''0'' \<and> t (''11001'', ''11000'') = Some ''0''"
proof -
  have "\<forall>raws. Some example_rows = Some raws \<longrightarrow> list_all (list_all (\<lambda>kv. fst kv \<noteq> None)) raws"
    by (simp add: example_rows_def)
  with load_cci_table_symmetric[of "Some example_rows"] obtain t
    where t: "load_cci_table (Some example_rows) = Inr t" by blast
  with example_rows_entry have e: "t (''11000'', ''11001'') = Some ''0''" by simp
  from load_cci_table_symmetric[of "Some example_rows" t "''11001''" "''11000''"] t
  have "t (''11001'', ''11000'') = t (''11000'', ''11001'')" by blast
  with t e show ?thesis by simp
qed

section \<open>Merging two tables\<close>

lemma reindex_ok:
  "distinct (columns d) \<Longrightarrow>
   reindex cols d = Inr \<lparr>columns = cols, rows = map (\<lambda>row. map (cell_of d row) cols) (rows d)\<rparr>"
  by (simp add: reindex_def cell_of_def)

lemma concat_two:
  assumes "distinct (columns A)" "distinct (columns B)"
  shows "concat_dfs [A, B] =
           Inr \<lparr>columns = sorted_list_of_set (set (columns A) \<union> set (columns B)),
                rows = map (\<lambda>row. map (cell_of A row) (sorted_list_of_set (set (columns A) \<union> set (columns B)))) (rows A)
                     @ map (\<lambda>row. map (cell_of B row) (sorted_list_of_set (set (columns A) \<union> set (columns B)))) (rows B)\<rparr>"
  using assms by (simp add: concat_dfs_def reindex_ok Let_def)

lemma cell_of_absent: "c \<notin> set (columns d) \<Longrightarrow> cell_of d row c = NaN"
proof -
  assume "c \<notin> set (columns d)"
  then have "c \<notin> fst ` set (zip (columns d) row)" by (auto dest: set_zip_leftD)
  then have "map_of (zip (columns d) row) c = None" by (simp add: map_of_eq_None_iff)
  then show ?thesis by (simp add: cell_of_def)
qed

lemma cell_of_present:
  "distinct (columns d) \<Longrightarrow> length row = length (columns d) \<Longrightarrow> j < length row \<Longrightarrow>
   cell_of d row (columns d ! j) = row ! j"
proof -
  assume d: "distinct (columns d)" and l: "length row = length (columns d)" and j: "j < length row"
  have "map_of (zip (columns d) row) (columns d ! j) = Some (row ! j)"
    using d l j by (simp add: map_of_zip_nth)
  then show ?thesis by (simp add: cell_of_def)
qed


lemma cell_of_reindexed:
  assumes "distinct cols" "c \<in> set cols"
  shows "cell_of \<lparr>columns = cols, rows = rs\<rparr> (map f cols) c = f c"
  using assms by (simp add: cell_of_def map_of_zip_map)

text \<open>
  Claim C7, as amended. For two tables whose own column names are distinct, merging
  gives a table whose column list is sorted, without repetition, and holds exactly the
  column names of both; its rows are the rows of the first table in their order followed
  by the rows of the second in theirs, none dropped; a cell under a column of the row's
  source table keeps its value, and a cell under a column the source table lacks holds
  the missing value \<open>NaN\<close>, which the table write renders as an empty field. When
  one of the tables repeats a column name, merging raises and gives no table.
\<close>

theorem concat_dfs_merge:
  "(distinct (columns A) \<and> distinct (columns B) \<longrightarrow>
      (\<exists>M. concat_dfs [A, B] = Inr M
         \<and> sorted (columns M) \<and> distinct (columns M)
         \<and> set (columns M) = set (columns A) \<union> set (columns B)
         \<and> length (rows M) = length (rows A) + length (rows B)
         \<and> (\<forall>i<length (rows A). \<forall>c\<in>set (columns M).
               cell_of M (rows M ! i) c =
                 (if c \<in> set (columns A) then cell_of A (rows A ! i) c else NaN))
         \<and> (\<forall>i<length (rows B). \<forall>c\<in>set (columns M).
               cell_of M (rows M ! (length (rows A) + i)) c =
                 (if c \<in> set (columns B) then cell_of B (rows B ! i) c else NaN))))
   \<and> (\<not> distinct (columns A) \<or> \<not> distinct (columns B) \<longrightarrow> concat_dfs [A, B] = Inl ReindexError)
   \<and> csv_field NaN = []"
proof (intro conjI impI)
  assume d: "distinct (columns A) \<and> distinct (columns B)"
  let ?cols = "sorted_list_of_set (set (columns A) \<union> set (columns B))"
  let ?ra = "map (\<lambda>row. map (cell_of A row) ?cols) (rows A)"
  let ?rb = "map (\<lambda>row. map (cell_of B row) ?cols) (rows B)"
  let ?M = "\<lparr>columns = ?cols, rows = ?ra @ ?rb\<rparr>"
  have M: "concat_dfs [A, B] = Inr ?M" using d concat_two by simp
  have dc: "distinct ?cols" by simp
  have sc: "set ?cols = set (columns A) \<union> set (columns B)" by simp
  have a: "\<forall>i<length (rows A). \<forall>c\<in>set (columns ?M).
               cell_of ?M (rows ?M ! i) c =
                 (if c \<in> set (columns A) then cell_of A (rows A ! i) c else NaN)"
  proof (intro allI impI ballI)
    fix i c assume i: "i < length (rows A)" and c: "c \<in> set (columns ?M)"
    have "rows ?M ! i = map (cell_of A (rows A ! i)) ?cols" using i by (simp add: nth_append)
    then have "cell_of ?M (rows ?M ! i) c = cell_of A (rows A ! i) c"
      using cell_of_reindexed[OF dc, of c] c by simp
    then show "cell_of ?M (rows ?M ! i) c =
                 (if c \<in> set (columns A) then cell_of A (rows A ! i) c else NaN)"
      using cell_of_absent by simp
  qed
  have b: "\<forall>i<length (rows B). \<forall>c\<in>set (columns ?M).
               cell_of ?M (rows ?M ! (length (rows A) + i)) c =
                 (if c \<in> set (columns B) then cell_of B (rows B ! i) c else NaN)"
  proof (intro allI impI ballI)
    fix i c assume i: "i < length (rows B)" and c: "c \<in> set (columns ?M)"
    have "rows ?M ! (length (rows A) + i) = map (cell_of B (rows B ! i)) ?cols"
      using i by (simp add: nth_append)
    then have "cell_of ?M (rows ?M ! (length (rows A) + i)) c = cell_of B (rows B ! i) c"
      using cell_of_reindexed[OF dc, of c] c by simp
    then show "cell_of ?M (rows ?M ! (length (rows A) + i)) c =
                 (if c \<in> set (columns B) then cell_of B (rows B ! i) c else NaN)"
      using cell_of_absent by simp
  qed
  have "sorted (columns ?M)" "distinct (columns ?M)"
    "set (columns ?M) = set (columns A) \<union> set (columns B)"
    "length (rows ?M) = length (rows A) + length (rows B)"
    by simp_all
  with M a b show "\<exists>M. concat_dfs [A, B] = Inr M
         \<and> sorted (columns M) \<and> distinct (columns M)
         \<and> set (columns M) = set (columns A) \<union> set (columns B)
         \<and> length (rows M) = length (rows A) + length (rows B)
         \<and> (\<forall>i<length (rows A). \<forall>c\<in>set (columns M).
               cell_of M (rows M ! i) c =
                 (if c \<in> set (columns A) then cell_of A (rows A ! i) c else NaN))
         \<and> (\<forall>i<length (rows B). \<forall>c\<in>set (columns M).
               cell_of M (rows M ! (length (rows A) + i)) c =
                 (if c \<in> set (columns B) then cell_of B (rows B ! i) c else NaN))"
    by blast
next
  assume "\<not> distinct (columns A) \<or> \<not> distinct (columns B)"
  then show "concat_dfs [A, B] = Inl ReindexError"
    by (auto simp: concat_dfs_def reindex_def Let_def)
next
  show "csv_field NaN = []" by (simp add: csv_field_def)
qed

theorem concat_dfs_counterexample:
  "concat_dfs [table_xy, table_yz] =
     Inr \<lparr>columns = [''X'', ''Y'', ''Z''],
          rows = [[Str ''1'', Str ''2'', NaN], [NaN, Str ''3'', Str ''4'']]\<rparr>
   \<and> NaN \<noteq> Str []
   \<and> concat_dfs [table_xx, table_yz] = Inl ReindexError"
  by code_simp

theorem concat_dfs_merge_witness:
  "distinct (columns table_xy) \<and> distinct (columns table_yz)
   \<and> (\<exists>M. concat_dfs [table_xy, table_yz] = Inr M
          \<and> set (columns M) = {''X'', ''Y'', ''Z''} \<and> length (rows M) = 2
          \<and> cell_of M (rows M ! 0) ''Z'' = NaN \<and> cell_of M (rows M ! 1) ''Z'' = Str ''4'')
   \<and> \<not> distinct (columns table_xx)
   \<and> concat_dfs [table_xx, table_yz] = Inl ReindexError"
proof -
  have d: "distinct (columns table_xy) \<and> distinct (columns table_yz)"
    by (simp add: table_xy_def table_yz_def)
  have x: "\<not> distinct (columns table_xx)" by (simp add: table_xx_def)
  from concat_dfs_merge[of table_xy table_yz] d obtain M
    where M: "concat_dfs [table_xy, table_yz] = Inr M"
      and s: "set (columns M) = set (columns table_xy) \<union> set (columns table_yz)"
      and l: "length (rows M) = length (rows table_xy) + length (rows table_yz)"
      and a: "\<forall>i<length (rows table_xy). \<forall>c\<in>set (columns M).
               cell_of M (rows M ! i) c =
                 (if c \<in> set (columns table_xy) then cell_of table_xy (rows table_xy ! i) c else NaN)"
      and b: "\<forall>i<length (rows table_yz). \<forall>c\<in>set (columns M).
               cell_of M (rows M ! (length (rows table_xy) + i)) c =
                 (if c \<in> set (columns table_yz) then cell_of table_yz (rows table_yz ! i) c else NaN)"
    by blast
  have s': "set (columns M) = {''X'', ''Y'', ''Z''}" using s by (auto simp: table_xy_def table_yz_def)
  have l': "length (rows M) = 2" using l by (simp add: table_xy_def table_yz_def)
  have "cell_of M (rows M ! 0) ''Z'' = NaN"
    using a[rule_format, of 0 "''Z''"] s' by (simp add: table_xy_def)
  moreover have "cell_of M (rows M ! 1) ''Z'' = Str ''4''"
    using b[rule_format, of 0 "''Z''"] s' by (simp add: table_xy_def table_yz_def cell_of_def)
  moreover from concat_dfs_merge[of table_xx table_yz] x
  have "concat_dfs [table_xx, table_yz] = Inl ReindexError" by blast
  ultimately show ?thesis using d x M s' l' by blast
qed

section \<open>Probing the candidates\<close>

lemma probe_probing:
  "probe e base cs log = (tgt, log') \<Longrightarrow>
     \<exists>urls. log' = log @ map Fetch urls \<and> probing e base (length (filter is_fetch log)) cs tgt urls"
proof (induction cs arbitrary: log)
  case Nil
  then have "tgt = None" "log' = log @ map Fetch []" by simp_all
  then show ?case using probing.exhausted by blast
next
  case (Cons c cs)
  let ?n = "length (filter is_fetch log)"
  obtain f1 f2 where u: "candidate_urls base c = (f1, f2)" by (cases "candidate_urls base c")
  have d1: "do_fetch e f1 log = (fetch_zip_via_license e ?n f1, log @ [Fetch f1])"
    by (simp add: do_fetch_def)
  have d2: "do_fetch e f2 (log @ [Fetch f1]) = (fetch_zip_via_license e (Suc ?n) f2, log @ [Fetch f1, Fetch f2])"
    by (simp add: do_fetch_def)
  show ?case
  proof (cases "truthy (fetch_zip_via_license e ?n f1)")
    case False
    with Cons.prems u d1 have "probe e base cs (log @ [Fetch f1]) = (tgt, log')" by simp
    from Cons.IH[OF this] obtain urls where "log' = (log @ [Fetch f1]) @ map Fetch urls"
      "probing e base (Suc ?n) cs tgt urls" by auto
    then have "log' = log @ map Fetch (f1 # urls)" "probing e base ?n (c # cs) tgt (f1 # urls)"
      using probing.file1_absent[OF u False] by simp_all
    then show ?thesis by blast
  next
    case True
    show ?thesis
    proof (cases "truthy (fetch_zip_via_license e (Suc ?n) f2)")
      case False
      with True Cons.prems u d1 d2 have "probe e base cs (log @ [Fetch f1, Fetch f2]) = (tgt, log')"
        by simp
      from Cons.IH[OF this] obtain urls where "log' = (log @ [Fetch f1, Fetch f2]) @ map Fetch urls"
        "probing e base (Suc (Suc ?n)) cs tgt urls" by auto
      then have "log' = log @ map Fetch (f1 # f2 # urls)"
        "probing e base ?n (c # cs) tgt (f1 # f2 # urls)"
        using probing.file2_absent[OF u True False] by simp_all
      then show ?thesis by blast
    next
      case t2: True
      with True Cons.prems u d1 d2 have "tgt = Some (c, f1, f2)" "log' = log @ map Fetch [f1, f2]"
        by simp_all
      then show ?thesis using probing.accepted[OF u True t2] by blast
    qed
  qed
qed

lemma probing_accepted:
  "probing e base n cs tgt urls \<Longrightarrow> tgt = Some (c, f1, f2) \<Longrightarrow>
     \<exists>pre post urls'. cs = pre @ c # post \<and> urls = urls' @ [f1, f2] \<and> length urls' \<le> 2 * length pre
        \<and> candidate_urls base c = (f1, f2)
        \<and> truthy (fetch_zip_via_license e (n + length urls') f1)
        \<and> truthy (fetch_zip_via_license e (Suc (n + length urls')) f2)"
proof (induction rule: probing.induct)
  case (exhausted n)
  then show ?case by simp
next
  case (file1_absent c0 g1 g2 n cs tgt urls)
  from file1_absent.IH[OF file1_absent.prems] obtain pre post urls'
    where "cs = pre @ c # post" "urls = urls' @ [f1, f2]" "length urls' \<le> 2 * length pre"
      "candidate_urls base c = (f1, f2)"
      "truthy (fetch_zip_via_license e (Suc n + length urls') f1)"
      "truthy (fetch_zip_via_license e (Suc (Suc n + length urls')) f2)" by blast
  then have "c0 # cs = (c0 # pre) @ c # post \<and> g1 # urls = (g1 # urls') @ [f1, f2]
      \<and> length (g1 # urls') \<le> 2 * length (c0 # pre) \<and> candidate_urls base c = (f1, f2)
      \<and> truthy (fetch_zip_via_license e (n + length (g1 # urls')) f1)
      \<and> truthy (fetch_zip_via_license e (Suc (n + length (g1 # urls'))) f2)" by simp
  then show ?case by blast
next
  case (file2_absent c0 g1 g2 n cs tgt urls)
  from file2_absent.IH[OF file2_absent.prems] obtain pre post urls'
    where "cs = pre @ c # post" "urls = urls' @ [f1, f2]" "length urls' \<le> 2 * length pre"
      "candidate_urls base c = (f1, f2)"
      "truthy (fetch_zip_via_license e (Suc (Suc n) + length urls') f1)"
      "truthy (fetch_zip_via_license e (Suc (Suc (Suc n) + length urls')) f2)" by blast
  then have "c0 # cs = (c0 # pre) @ c # post \<and> g1 # g2 # urls = (g1 # g2 # urls') @ [f1, f2]
      \<and> length (g1 # g2 # urls') \<le> 2 * length (c0 # pre) \<and> candidate_urls base c = (f1, f2)
      \<and> truthy (fetch_zip_via_license e (n + length (g1 # g2 # urls')) f1)
      \<and> truthy (fetch_zip_via_license e (Suc (n + length (g1 # g2 # urls'))) f2)" by simp
  then show ?case by blast
next
  case (accepted c0 g1 g2 n cs)
  then have "c0 # cs = [] @ c # cs \<and> [g1, g2] = [] @ [f1, f2] \<and> length ([]::string list) \<le> 2 * length ([]::release list)
      \<and> candidate_urls base c = (f1, f2)
      \<and> truthy (fetch_zip_via_license e (n + length ([]::string list)) f1)
      \<and> truthy (fetch_zip_via_license e (Suc (n + length ([]::string list))) f2)" by simp
  then show ?case by blast
qed

lemma probing_exhausted:
  "probing e base n cs tgt urls \<Longrightarrow> tgt = None \<Longrightarrow>
     length cs \<le> length urls \<and> length urls \<le> 2 * length cs"
  by (induction rule: probing.induct) auto


text \<open>
  Claim C2, as amended. Probing goes through the candidates in order; for each it
  fetches file 1 and, only when that fetch succeeds, file 2; a candidate is accepted only
  when both fetches succeed; the two fetches of the accepted candidate are the last
  ones of the probing, so nothing is fetched for a later candidate. When no candidate is
  accepted, every candidate had one or two fetches.
\<close>

theorem probe_short_circuit:
  assumes "probe e base cs log = (tgt, log')"
  shows "\<exists>urls. log' = log @ map Fetch urls
           \<and> probing e base (length (filter is_fetch log)) cs tgt urls
           \<and> (\<forall>c f1 f2. tgt = Some (c, f1, f2) \<longrightarrow>
                 (\<exists>pre post urls'. cs = pre @ c # post \<and> urls = urls' @ [f1, f2]
                    \<and> length urls' \<le> 2 * length pre \<and> candidate_urls base c = (f1, f2)
                    \<and> truthy (fetch_zip_via_license e (length (filter is_fetch log) + length urls') f1)
                    \<and> truthy (fetch_zip_via_license e
                                 (Suc (length (filter is_fetch log) + length urls')) f2)))
           \<and> (tgt = None \<longrightarrow> length cs \<le> length urls \<and> length urls \<le> 2 * length cs)"
proof -
  from probe_probing[OF assms] obtain urls where l: "log' = log @ map Fetch urls"
    and p: "probing e base (length (filter is_fetch log)) cs tgt urls" by blast
  show ?thesis using l p probing_accepted[OF p] probing_exhausted[OF p] by blast
qed

theorem probe_counterexample:
  "snd (snd (download_or_skip_both_with_version silent_env example_base stocked_disk)) =
     map (\<lambda>c. Fetch (fst (candidate_urls example_base c))) (candidates 2025 4 313 0)
   \<and> Fetch (snd (candidate_urls example_base (2025, 4, 313, 1)))
       \<notin> set (snd (snd (download_or_skip_both_with_version silent_env example_base stocked_disk)))"
  by code_simp

lemma example_probe:
  "probe example_env example_base (candidates 2025 4 313 0) [] =
     (Some ((2025, 4, 313, 1), example_url ''1'' ''1'', example_url ''1'' ''2''),
      [Fetch (example_url ''1'' ''1''), Fetch (example_url ''1'' ''2'')])"
  by code_simp

theorem probe_short_circuit_witness:
  "probe example_env example_base (candidates 2025 4 313 0) [] =
     (Some ((2025, 4, 313, 1), example_url ''1'' ''1'', example_url ''1'' ''2''),
      [Fetch (example_url ''1'' ''1''), Fetch (example_url ''1'' ''2'')])
   \<and> probing example_env example_base 0 (candidates 2025 4 313 0)
        (Some ((2025, 4, 313, 1), example_url ''1'' ''1'', example_url ''1'' ''2''))
        [example_url ''1'' ''1'', example_url ''1'' ''2'']"
proof -
  from probe_short_circuit[OF example_probe] obtain urls
    where l: "[Fetch (example_url ''1'' ''1''), Fetch (example_url ''1'' ''2'')] = [] @ map Fetch urls"
      and p: "probing example_env example_base (length (filter is_fetch [])) (candidates 2025 4 313 0)
                (Some ((2025, 4, 313, 1), example_url ''1'' ''1'', example_url ''1'' ''2'')) urls"
    by blast
  from l have "urls = [example_url ''1'' ''1'', example_url ''1'' ''2'']" by auto
  with p example_probe show ?thesis by simp
qed

section \<open>Running again after an update\<close>

text \<open>
  Claim C3. The claim asks that a second run, started when the stored version is
  current, only probes and reports that everything is up to date. At this input the
  code does otherwise. The first run finds no marker, takes version 313 revision 0
  from the base URL, finds revision 1 published and updates to it: it writes the table
  under the name derived from the revision 1 URL, and the marker. The second run, on
  the disk the first one left and with the same network, reads revision 1 from the
  marker and finds none of its eight candidates published; it then looks for the table
  under the name derived from the base URL, which is the revision 0 name and does not
  exist, so it fetches the two revision 0 files, writes them as a table, writes the
  marker again with revision 1 and reports an initial download.
\<close>

theorem rerun_after_update_downloads_again:
  "(case download_or_skip_both_with_version example_env example_base empty_disk of
      (res1, dk1, log1) \<Rightarrow>
        res1 = Inr (''ccipra-v313r1-f1f2.csv'', Updated_to (2025, 4, 313, 1))
        \<and> marker dk1 = Content (''2025q4 v313r1'' @ [CHR 0x0A])
        \<and> (case download_or_skip_both_with_version example_env example_base dk1 of
              (res2, dk2, log2) \<Rightarrow>
                res2 = Inr (''ccipra-v313r0-f1f2.csv'', Downloaded_initial (2025, 4, 313, 1))
                \<and> drop 8 log2 =
                    [Fetch (example_url ''0'' ''1''), Fetch (example_url ''0'' ''2''),
                     Write_csv ''ccipra-v313r0-f1f2.csv'',
                     Write_marker (''2025q4 v313r1'' @ [CHR 0x0A])]))"
  by code_simp

section \<open>Rewriting the URL fields\<close>

text \<open>
  Claim C5. The claim asks that \<open>_set_vr\<close> change the version token only. The pattern
  accepts a hyphen or an underscore on either side of the token, and the replacement
  writes back a hyphen where the match had one but nothing where it had an underscore:
  at this URL the underscores before and after the token are lost.
\<close>

theorem set_vr_drops_underscores:
  "set_vr ''https://host/d?file=/zip/ncci_2025q4_ccipra_v313r0_f1.zip'' 313 1 =
     ''https://host/d?file=/zip/ncci_2025q4_cciprav313r1f1.zip''"
  by code_simp

end
